theory Spec2Isabelle
  imports Main "HOL-Library.Word"
begin

unbundle bit_operations_syntax

section \<open>Common kernel types\<close>

text \<open>
  Pointers and physical addresses are 64-bit values (\<^verbatim>\<open>uint64\<close>, \<^verbatim>\<open>char *\<close>);
  the null pointer is \<open>0\<close>.  A kernel panic never returns: every function that may
  panic yields \<open>Inl msg\<close> with the panic string, and \<open>Inr\<close> otherwise.
\<close>

type_synonym addr = "64 word"

text \<open>
  Modelled from the spec: the page allocator (\<^verbatim>\<open>kalloc\<close>, \<^verbatim>\<open>kfree\<close> of kalloc.c) is an
  external collaborator that is not among the sources.  It is a list of free pages:
  \<^verbatim>\<open>kalloc()\<close> hands out the first free page, or the null pointer when none is left;
  \<^verbatim>\<open>kfree(pa)\<close> gives a page back.
\<close>

definition kalloc :: "addr list \<Rightarrow> addr \<times> addr list" where
  "kalloc fl = (case fl of [] \<Rightarrow> (0, []) | pa # rest \<Rightarrow> (pa, rest))"

definition kfree :: "addr \<Rightarrow> addr list \<Rightarrow> addr list" where
  "kfree pa fl = pa # fl"

section \<open>The e1000 driver (kernel/e1000.c)\<close>

subsection \<open>Data\<close>

text \<open>
  The descriptor layouts and the bit masks come from \<^verbatim>\<open>e1000_dev.h\<close>, which is not among
  the sources.  Of a descriptor only the fields the driver touches are kept; the masks
  are parameters of the model, collected in \<open>e1000_dev\<close> (plain C \<^verbatim>\<open>int\<close> constants).
\<close>

record tx_desc =
  tx_addr :: "64 word"
  tx_length :: "16 word"
  tx_cmd :: "8 word"
  tx_status :: "8 word"

record rx_desc =
  rx_addr :: "64 word"
  rx_length :: "16 word"
  rx_status :: "8 word"

record e1000_dev =
  E1000_TXD_STAT_DD :: "32 word"
  E1000_TXD_CMD_EOP :: "32 word"
  E1000_TXD_CMD_RS :: "32 word"
  E1000_RXD_STAT_DD :: "32 word"

text \<open>The values of the Intel 8254x programming manual, as xv6's header has them.\<close>

definition intel_dev :: e1000_dev where
  "intel_dev = \<lparr> E1000_TXD_STAT_DD = 1, E1000_TXD_CMD_EOP = 1, E1000_TXD_CMD_RS = 8,
                 E1000_RXD_STAT_DD = 1 \<rparr>"

text \<open>
  The device registers the three driver entry points use, by their symbolic offsets
  into \<^verbatim>\<open>regs\<close> (an array of \<^verbatim>\<open>uint32\<close>).
\<close>

datatype e1000_reg = E1000_TDT | E1000_RDT | E1000_ICR

text \<open>
  One call of \<^verbatim>\<open>net_rx(buf, len)\<close>, the network stack's ingress (an external
  collaborator): the buffer and length passed, together with the ring slot the buffer was
  detached from and whether \<^verbatim>\<open>e1000_lock\<close> was held when the call was made.
\<close>

datatype net_rx_call = Net_rx (rx_slot: nat) (rx_buf: addr) (rx_len: int) (rx_locked: bool)

text \<open>
  One call of the page allocator by the driver, \<^verbatim>\<open>kalloc()\<close> with the page it returned or
  \<^verbatim>\<open>kfree(pa)\<close>, and whether \<^verbatim>\<open>e1000_lock\<close> was held when the call was made.
\<close>

datatype page_call =
    Page_alloc (page: addr) (page_locked: bool)
  | Page_free (page: addr) (page_locked: bool)

text \<open>
  The driver's static variables.  The rings and buffer tables are arrays of
  \<^verbatim>\<open>TX_RING_SIZE\<close> and \<^verbatim>\<open>RX_RING_SIZE\<close> entries, indexed here by \<open>nat\<close>; the ring
  capacities (both \<^verbatim>\<open>#define\<close>d as 16) are the parameter \<open>N\<close> of the functions below.
  \<open>e1000_lock\<close> tells whether the spinlock is held, \<open>freelist\<close> is the allocator's
  state, \<open>delivered\<close> logs the calls of \<^verbatim>\<open>net_rx\<close> in order and \<open>page_calls\<close> those of
  the allocator.
\<close>

record e1000 =
  tx_ring :: "nat \<Rightarrow> tx_desc"
  tx_bufs :: "nat \<Rightarrow> addr"
  rx_ring :: "nat \<Rightarrow> rx_desc"
  rx_bufs :: "nat \<Rightarrow> addr"
  regs :: "e1000_reg \<Rightarrow> 32 word"
  e1000_lock :: bool
  freelist :: "addr list"
  delivered :: "net_rx_call list"
  page_calls :: "page_call list"

definition TX_RING_SIZE :: nat where
  "TX_RING_SIZE = 16"

definition RX_RING_SIZE :: nat where
  "RX_RING_SIZE = 16"

subsection \<open>The spinlock\<close>

text \<open>
  Modelled from the spec: \<^verbatim>\<open>acquire\<close>, \<^verbatim>\<open>release\<close> and \<^verbatim>\<open>holding\<close> (spinlock.c) are not
  among the sources.  The lock is a mutual-exclusion lock; as in xv6, taking a lock that
  is already held and releasing one that is not are fatal.
\<close>

definition acquire :: "e1000 \<Rightarrow> string + e1000" where
  "acquire s = (if e1000_lock s then Inl ''acquire'' else Inr (s\<lparr>e1000_lock := True\<rparr>))"

definition release :: "e1000 \<Rightarrow> string + e1000" where
  "release s = (if e1000_lock s then Inr (s\<lparr>e1000_lock := False\<rparr>) else Inl ''release'')"

definition holding :: "e1000 \<Rightarrow> bool" where
  "holding s = e1000_lock s"

subsection \<open>Transmit\<close>

text \<open>\<^verbatim>\<open>status & E1000_TXD_STAT_DD\<close>: the \<^verbatim>\<open>uint8\<close> status is promoted to \<^verbatim>\<open>int\<close>.\<close>

definition tx_done :: "e1000_dev \<Rightarrow> tx_desc \<Rightarrow> bool" where
  "tx_done c d \<longleftrightarrow> (ucast (tx_status d) AND E1000_TXD_STAT_DD c) \<noteq> 0"

text \<open>
  \<^verbatim>\<open>int e1000_transmit(char *buf, int len)\<close>.  \<open>N\<close> is \<^verbatim>\<open>TX_RING_SIZE\<close>.  The tail is a
  \<^verbatim>\<open>uint32\<close>, so \<^verbatim>\<open>tail % TX_RING_SIZE\<close> is an unsigned remainder and \<^verbatim>\<open>tail < 0\<close> is never
  true.  The result is the returned \<^verbatim>\<open>int\<close> and the new state.
\<close>

definition e1000_transmit ::
  "nat \<Rightarrow> e1000_dev \<Rightarrow> addr \<Rightarrow> int \<Rightarrow> e1000 \<Rightarrow> string + (int \<times> e1000)" where
  "e1000_transmit N c buf len s =
     (case acquire s of
        Inl e \<Rightarrow> Inl e
      | Inr s1 \<Rightarrow>
          let tail = unat (regs s1 E1000_TDT) mod N in
          if tail \<ge> N then Inl ''e1000_transmit''
          else if \<not> tx_done c (tx_ring s1 tail) then
            (if holding s1
             then (case release s1 of Inl e \<Rightarrow> Inl e | Inr s2 \<Rightarrow> Inr (- 1, s2))
             else Inr (- 1, s1))
          else
            let s2 = (if tx_bufs s1 tail \<noteq> 0
                      then s1\<lparr>freelist := kfree (tx_bufs s1 tail) (freelist s1),
                             page_calls := page_calls s1 @
                               [Page_free (tx_bufs s1 tail) (e1000_lock s1)]\<rparr>
                      else s1);
                s3 = s2\<lparr>tx_bufs := (tx_bufs s2)(tail := buf)\<rparr>;
                s4 = s3\<lparr>tx_ring := (tx_ring s3)(tail :=
                        (tx_ring s3 tail)\<lparr>tx_addr := buf,
                                           tx_length := of_int len,
                                           tx_cmd := ucast (E1000_TXD_CMD_EOP c OR E1000_TXD_CMD_RS c),
                                           tx_status := 0\<rparr>)\<rparr>;
                s5 = s4\<lparr>regs := (regs s4)(E1000_TDT := of_nat ((tail + 1) mod N))\<rparr>
            in (case release s5 of Inl e \<Rightarrow> Inl e | Inr s6 \<Rightarrow> Inr (0, s6)))"

text \<open>
  A sequence of transmit calls issued back to back, nothing else touching the driver in
  between: the return values in order, or the first panic.
\<close>

fun transmit_all ::
  "nat \<Rightarrow> e1000_dev \<Rightarrow> (addr \<times> int) list \<Rightarrow> e1000 \<Rightarrow> string + (int list \<times> e1000)" where
  "transmit_all N c [] s = Inr ([], s)"
| "transmit_all N c ((buf, len) # reqs) s =
     (case e1000_transmit N c buf len s of
        Inl e \<Rightarrow> Inl e
      | Inr (r, s') \<Rightarrow>
          (case transmit_all N c reqs s' of
             Inl e \<Rightarrow> Inl e
           | Inr (rs, s'') \<Rightarrow> Inr (r # rs, s'')))"

subsection \<open>Receive\<close>

text \<open>\<^verbatim>\<open>status & E1000_RXD_STAT_DD\<close>, the loop condition of \<^verbatim>\<open>e1000_recv\<close>.\<close>

definition rx_done :: "e1000_dev \<Rightarrow> rx_desc \<Rightarrow> bool" where
  "rx_done c d \<longleftrightarrow> (ucast (rx_status d) AND E1000_RXD_STAT_DD c) \<noteq> 0"

text \<open>
  The device works concurrently with the driver.  While one packet is being delivered
  it may complete further receive descriptors: for each \<open>(i, len)\<close> it stores the packet
  length in descriptor \<open>i\<close> and sets the done bit in its status.  \<open>hw_rx\<close> lists the
  completions that happen during one delivery.
\<close>

type_synonym hw_rx = "(nat \<times> 16 word) list"

definition hw_complete ::
  "e1000_dev \<Rightarrow> nat \<times> 16 word \<Rightarrow> (nat \<Rightarrow> rx_desc) \<Rightarrow> (nat \<Rightarrow> rx_desc)" where
  "hw_complete c = (\<lambda>(i, len) ring.
     ring(i := (ring i)\<lparr>rx_length := len,
                         rx_status := rx_status (ring i) OR ucast (E1000_RXD_STAT_DD c)\<rparr>))"

definition device_rx :: "e1000_dev \<Rightarrow> hw_rx \<Rightarrow> e1000 \<Rightarrow> e1000" where
  "device_rx c hw s = s\<lparr>rx_ring := fold (hw_complete c) hw (rx_ring s)\<rparr>"

text \<open>
  \<^verbatim>\<open>net_rx(buf, len)\<close> is only known by its interface; the call is logged together with
  the slot the buffer came from and the state of the lock at that moment.
\<close>

definition net_rx :: "nat \<Rightarrow> addr \<Rightarrow> int \<Rightarrow> e1000 \<Rightarrow> e1000" where
  "net_rx slot buf len s =
     s\<lparr>delivered := delivered s @ [Net_rx slot buf len (e1000_lock s)]\<rparr>"

text \<open>
  The body of the \<^verbatim>\<open>while\<close> loop of \<^verbatim>\<open>e1000_recv\<close> for the descriptor at \<open>tail\<close>, up
  to and including the write of \<^verbatim>\<open>regs[E1000_RDT]\<close>.  \<open>hw\<close> is what the device does
  while \<^verbatim>\<open>net_rx\<close> runs.
\<close>

definition recv_deliver :: "e1000_dev \<Rightarrow> hw_rx \<Rightarrow> nat \<Rightarrow> e1000 \<Rightarrow> string + e1000" where
  "recv_deliver c hw tail s =
     (let buf = rx_bufs s tail;
          len = uint (rx_length (rx_ring s tail))
      in case release s of
           Inl e \<Rightarrow> Inl e
         | Inr s1 \<Rightarrow>
             (case acquire (device_rx c hw (net_rx tail buf len s1)) of
                Inl e \<Rightarrow> Inl e
              | Inr s2 \<Rightarrow>
                  let (pa, fl) = kalloc (freelist s2);
                      s3 = s2\<lparr>freelist := fl,
                             page_calls := page_calls s2 @ [Page_alloc pa (e1000_lock s2)],
                             rx_bufs := (rx_bufs s2)(tail := pa)\<rparr>
                  in if pa = 0 then Inl ''e1000''
                     else
                       let s4 = s3\<lparr>rx_ring := (rx_ring s3)(tail :=
                                   (rx_ring s3 tail)\<lparr>rx_addr := pa\<rparr>)\<rparr>;
                           s5 = s4\<lparr>rx_ring := (rx_ring s4)(tail :=
                                   (rx_ring s4 tail)\<lparr>rx_status := 0\<rparr>)\<rparr>
                       in Inr (s5\<lparr>regs := (regs s5)(E1000_RDT := of_nat tail)\<rparr>)))"

lemma rx_done_status0: "\<not> rx_done c (d\<lparr>rx_status := 0\<rparr>)"
  by (simp add: rx_done_def)

lemma recv_deliver_ring:
  "recv_deliver c [] tail s = Inr s' \<Longrightarrow>
   rx_ring s' = (rx_ring s)(tail := (rx_ring s tail)\<lparr>rx_addr := rx_bufs s' tail, rx_status := 0\<rparr>)"
  by (auto simp: recv_deliver_def release_def acquire_def net_rx_def device_rx_def Let_def
      split: if_splits prod.splits)

lemma done_card_less:
  fixes N :: nat
  assumes "tail < N" "rx_done c (ring tail)" "\<not> rx_done c d"
  shows "card {i. i < N \<and> rx_done c ((ring(tail := d)) i)} < card {i. i < N \<and> rx_done c (ring i)}"
proof (rule psubset_card_mono)
  show "finite {i. i < N \<and> rx_done c (ring i)}" by simp
  show "{i. i < N \<and> rx_done c ((ring(tail := d)) i)} \<subset> {i. i < N \<and> rx_done c (ring i)}"
    using assms by (auto split: if_splits)
qed

text \<open>
  The \<^verbatim>\<open>while\<close> loop of \<^verbatim>\<open>e1000_recv\<close>, entered with the lock held.  \<open>N\<close> is
  \<^verbatim>\<open>RX_RING_SIZE\<close>; \<open>hws\<close> gives the device's completions during the first, second, ...
  delivery, and the device is idle once the list is used up.  An index outside the ring
  (which the remainder by \<open>N\<close> excludes, unless \<open>N = 0\<close>) is an error.  The loop ends: the
  schedule gets shorter, and once it is empty every round clears one more done bit.
\<close>

function e1000_recv_loop ::
  "nat \<Rightarrow> e1000_dev \<Rightarrow> hw_rx list \<Rightarrow> nat \<Rightarrow> e1000 \<Rightarrow> string + e1000" where
  "e1000_recv_loop N c hws tail s =
     (if N \<le> tail then Inl ''rx_ring index out of range''
      else if rx_done c (rx_ring s tail) then
        (case recv_deliver c (case hws of [] \<Rightarrow> [] | hw # _ \<Rightarrow> hw) tail s of
           Inl e \<Rightarrow> Inl e
         | Inr s' \<Rightarrow> e1000_recv_loop N c (tl hws) ((tail + 1) mod N) s')
      else Inr s)"
  by pat_completeness auto
termination
proof (relation "measures [\<lambda>(N, c, hws, tail, s). length hws,
                           \<lambda>(N, c, hws, tail, s). card {i. i < N \<and> rx_done c (rx_ring s i)}]",
       goal_cases)
  case 1
  then show ?case by simp
next
  case (2 N c hws tail s s')
  show ?case
  proof (cases hws)
    case Nil
    with 2 have r: "rx_ring s' = (rx_ring s)(tail := (rx_ring s tail)\<lparr>rx_addr := rx_bufs s' tail, rx_status := 0\<rparr>)"
      by (simp add: recv_deliver_ring)
    have "card {i. i < N \<and> rx_done c (rx_ring s' i)} < card {i. i < N \<and> rx_done c (rx_ring s i)}"
      unfolding r using 2 by (intro done_card_less) (simp_all add: rx_done_status0)
    with Nil show ?thesis by simp
  next
    case (Cons hw rest)
    then show ?thesis by simp
  qed
qed

declare e1000_recv_loop.simps [simp del]

text \<open>
  \<^verbatim>\<open>static void e1000_recv(void)\<close>: the first index is
  \<^verbatim>\<open>(regs[E1000_RDT] + 1) % RX_RING_SIZE\<close>, computed on \<^verbatim>\<open>uint32\<close>.
\<close>

definition e1000_recv :: "nat \<Rightarrow> e1000_dev \<Rightarrow> hw_rx list \<Rightarrow> e1000 \<Rightarrow> string + e1000" where
  "e1000_recv N c hws s =
     (case acquire s of
        Inl e \<Rightarrow> Inl e
      | Inr s1 \<Rightarrow>
          (case e1000_recv_loop N c hws (unat (regs s1 E1000_RDT + 1) mod N) s1 of
             Inl e \<Rightarrow> Inl e
           | Inr s2 \<Rightarrow> release s2))"

text \<open>\<^verbatim>\<open>void e1000_intr(void)\<close>: acknowledge the interrupt, then drain the ring.\<close>

definition e1000_intr :: "nat \<Rightarrow> e1000_dev \<Rightarrow> hw_rx list \<Rightarrow> e1000 \<Rightarrow> string + e1000" where
  "e1000_intr N c hws s =
     e1000_recv N c hws (s\<lparr>regs := (regs s)(E1000_ICR := 0xffffffff)\<rparr>)"

text \<open>
  A driver state of the shape \<^verbatim>\<open>e1000_init\<close> sets up, used for the concrete scenarios:
  every transmit descriptor is marked done and owns no buffer, every receive slot owns a
  buffer of its own, \<^verbatim>\<open>TDT = 0\<close>, \<^verbatim>\<open>RDT = RX_RING_SIZE - 1\<close>, and the lock is free.
\<close>

definition e1000_boot :: e1000 where
  "e1000_boot =
     \<lparr> tx_ring = (\<lambda>i. \<lparr> tx_addr = 0, tx_length = 0, tx_cmd = 0, tx_status = 1 \<rparr>),
       tx_bufs = (\<lambda>i. 0),
       rx_ring = (\<lambda>i. \<lparr> rx_addr = 0x87000000 + 0x1000 * of_nat i, rx_length = 0,
                          rx_status = 0 \<rparr>),
       rx_bufs = (\<lambda>i. 0x87000000 + 0x1000 * of_nat i),
       regs = (\<lambda>r. case r of E1000_TDT \<Rightarrow> 0 | E1000_RDT \<Rightarrow> 15 | E1000_ICR \<Rightarrow> 0),
       e1000_lock = False,
       freelist = map (\<lambda>i. 0x87100000 + 0x1000 * of_nat i) [0..<32],
       delivered = [], page_calls = [] \<rparr>"

text \<open>Seventeen frames handed to the driver one after the other.\<close>

definition frames17 :: "(addr \<times> int) list" where
  "frames17 = map (\<lambda>i. (0x88000000 + 0x1000 * of_nat i, 64)) [0..<17]"

text \<open>The index the drain starts at, \<^verbatim>\<open>(regs[E1000_RDT] + 1) % RX_RING_SIZE\<close>.\<close>

definition rx_head :: "nat \<Rightarrow> e1000 \<Rightarrow> nat" where
  "rx_head N s = unat (regs s E1000_RDT + 1) mod N"

text \<open>
  A receive slot owns a buffer: its entry in \<^verbatim>\<open>rx_bufs\<close> is not the null pointer and
  the descriptor points at it.
\<close>

definition rx_owned :: "e1000 \<Rightarrow> nat \<Rightarrow> bool" where
  "rx_owned s i \<longleftrightarrow> rx_bufs s i \<noteq> 0 \<and> rx_addr (rx_ring s i) = rx_bufs s i"

text \<open>
  What one run of the receive loop from index \<open>t\<close> achieves, with \<open>ds\<close> the calls of
  \<^verbatim>\<open>net_rx\<close> it made: the slots were visited in ring order from \<open>t\<close>, every call
  was made without the lock, the loop stopped at a descriptor that is not done, one page
  was taken from the allocator per delivery, the \<open>k\<close>-th buffer delivered is the one the
  slot held at the start or, from the second lap on, the page installed \<open>N\<close> deliveries
  earlier, and every visited slot owns a buffer in the end.  With an idle device the
  deliveries are exactly the run of done descriptors that starts at \<open>t\<close>.
\<close>

definition drained ::
  "nat \<Rightarrow> e1000_dev \<Rightarrow> hw_rx list \<Rightarrow> nat \<Rightarrow> e1000 \<Rightarrow> e1000 \<Rightarrow> net_rx_call list \<Rightarrow> bool" where
  "drained N c hws t s s' ds \<longleftrightarrow>
     delivered s' = delivered s @ ds \<and>
     map rx_slot ds = map (\<lambda>k. (t + k) mod N) [0..<length ds] \<and>
     (\<forall>d \<in> set ds. \<not> rx_locked d) \<and>
     \<not> rx_done c (rx_ring s' ((t + length ds) mod N)) \<and>
     freelist s = take (length ds) (freelist s) @ freelist s' \<and>
     length ds \<le> length (freelist s) \<and>
     (\<forall>k < length ds. freelist s ! k \<noteq> 0) \<and>
     (\<forall>k < length ds. rx_buf (ds ! k) =
        (if k < N then rx_bufs s ((t + k) mod N) else freelist s ! (k - N))) \<and>
     (\<forall>k < length ds. rx_owned s' ((t + k) mod N)) \<and>
     (hws = [] \<longrightarrow> length ds \<le> N \<and>
        (\<forall>k < length ds. rx_done c (rx_ring s ((t + k) mod N)) \<and>
            rx_len (ds ! k) = uint (rx_length (rx_ring s ((t + k) mod N)))) \<and>
        (length ds < N \<longrightarrow> \<not> rx_done c (rx_ring s ((t + length ds) mod N))))"

text \<open>
  Two receive scenarios on the booted driver: descriptors 0 to 3 completed, and
  descriptors 0 to 14 completed (all the device may fill while \<^verbatim>\<open>RDT\<close> is 15).
\<close>

definition rx_boot4 :: e1000 where
  "rx_boot4 = e1000_boot\<lparr>rx_ring := (\<lambda>i. \<lparr> rx_addr = 0x87000000 + 0x1000 * of_nat i,
       rx_length = 60 + of_nat i, rx_status = (if i < 4 then 1 else 0) \<rparr>)\<rparr>"

definition rx_boot15 :: e1000 where
  "rx_boot15 = e1000_boot\<lparr>rx_ring := (\<lambda>i. \<lparr> rx_addr = 0x87000000 + 0x1000 * of_nat i,
       rx_length = 60 + of_nat i, rx_status = (if i < 15 then 1 else 0) \<rparr>)\<rparr>"

section \<open>The trap dispatcher (kernel/trap.c)\<close>

subsection \<open>Data\<close>

text \<open>
  Constants of \<^verbatim>\<open>riscv.h\<close>, \<^verbatim>\<open>memlayout.h\<close> and \<^verbatim>\<open>fcntl.h\<close>, none of which is among the
  sources: they are parameters of the model.  \<open>xv6_consts\<close> holds the values xv6 gives
  them.
\<close>

record kconsts =
  SSTATUS_SPP :: "64 word"
  SSTATUS_SPIE :: "64 word"
  SSTATUS_SIE :: "64 word"
  PGSIZE :: "64 word"
  PROT_READ :: "32 word"
  PROT_WRITE :: "32 word"
  PROT_EXEC :: "32 word"
  PTE_R :: "32 word"
  PTE_W :: "32 word"
  PTE_X :: "32 word"
  PTE_U :: "32 word"
  UART0_IRQ :: int
  VIRTIO0_IRQ :: int

definition xv6_consts :: kconsts where
  "xv6_consts =
     \<lparr> SSTATUS_SPP = 0x100, SSTATUS_SPIE = 0x20, SSTATUS_SIE = 0x2, PGSIZE = 4096,
       PROT_READ = 1, PROT_WRITE = 2, PROT_EXEC = 4,
       PTE_R = 2, PTE_W = 4, PTE_X = 8, PTE_U = 16,
       UART0_IRQ = 10, VIRTIO0_IRQ = 1 \<rparr>"

text \<open>
  The contents of an inode: the bytes of the file.  A \<^verbatim>\<open>struct file *\<close> is known to the
  trap code only through \<^verbatim>\<open>f->ip\<close>, so a file pointer is \<open>Some\<close> inode, or \<open>None\<close> for
  the null pointer.
\<close>

type_synonym inode = "8 word list"

text \<open>
  \<^verbatim>\<open>struct mmap_VMA\<close> is declared in \<^verbatim>\<open>proc.h\<close>, which is not among the sources.  The
  fields are the ones \<^verbatim>\<open>usertrap\<close> reads, with the widths of the expressions they occur
  in (\<^verbatim>\<open>addr + len\<close> and \<^verbatim>\<open>... - addr + offset\<close> are computed on \<^verbatim>\<open>uint64\<close>).
\<close>

record mmap_VMA =
  vma_valid :: "32 word"
  vma_addr :: "64 word"
  vma_len :: "64 word"
  vma_prot :: "32 word"
  vma_file :: "inode option"
  vma_offset :: "64 word"

text \<open>The two targets \<^verbatim>\<open>stvec\<close> is switched between.\<close>

datatype trapvec = Kernelvec | Trampoline_uservec

text \<open>
  Calls of external collaborators, logged in the order they are made: the interrupt
  controller and the device handlers, \<^verbatim>\<open>wakeup(&ticks)\<close>, the diagnostics printed,
  the allocator, the file system and the page-table mapper, \<^verbatim>\<open>syscall()\<close> and
  \<^verbatim>\<open>yield()\<close>.
\<close>

datatype kcall =
    Plic_claim int
  | Uartintr
  | Virtio_disk_intr
  | Printf_unexpected_irq int
  | Plic_complete int
  | Wakeup_ticks
  | Printf_unexpected_scause "64 word" int
  | Printf_sepc_stval "64 word" "64 word"
  | Printf_msg string
  | Kalloc_call addr
  | Kfree_call addr
  | Begin_op
  | Ilock
  | Readi_call "64 word" "64 word" int
  | Iunlock
  | End_op
  | Mappages_call "64 word" addr "32 word" int
  | Syscall_call
  | Yield_call

text \<open>
  The state the trap code works on: the supervisor CSRs of the hart, the current
  process (\<^verbatim>\<open>p->killed\<close>, \<^verbatim>\<open>p->pid\<close>, \<^verbatim>\<open>p->trapframe->epc\<close>, \<^verbatim>\<open>p->vma\<close> and the mappings
  made in \<^verbatim>\<open>p->pagetable\<close>), the page allocator with the contents of physical pages,
  \<^verbatim>\<open>ticks\<close>, and the log of external calls.
\<close>

record kernel =
  sstatus :: "64 word"
  sepc :: "64 word"
  scause :: "64 word"
  stval :: "64 word"
  stvec :: trapvec
  stimecmp :: "64 word"
  p_killed :: bool
  p_pid :: int
  tf_epc :: "64 word"
  p_vma :: "mmap_VMA list"
  pagetable :: "(64 word \<times> addr \<times> 32 word) list"
  kfreelist :: "addr list"
  kmem :: "addr \<Rightarrow> 8 word list"
  ticks :: "32 word"
  klog :: "kcall list"

text \<open>
  What the environment decides during one trap: the identifier \<^verbatim>\<open>plic_claim()\<close>
  returns, \<^verbatim>\<open>cpuid()\<close>, \<^verbatim>\<open>r_time()\<close>, whether \<^verbatim>\<open>myproc()\<close> is null, what the rest of the
  system has done to the state by the time \<^verbatim>\<open>yield()\<close> and \<^verbatim>\<open>syscall()\<close> return (both
  are assumed to return), the result of \<^verbatim>\<open>mappages\<close> and whether the file read fails.
\<close>

record env =
  plic_claim :: int
  cpuid :: int
  r_time :: "64 word"
  myproc_null :: bool
  yield :: "kernel \<Rightarrow> kernel"
  syscall :: "kernel \<Rightarrow> kernel"
  mappages_ret :: int
  readi_error :: bool

text \<open>How a trap handler ends: a panic, \<^verbatim>\<open>exit(status)\<close>, or the return to user space.\<close>

datatype ending = Panic string | Exit int | Return_to_user

subsection \<open>Helpers from absent files\<close>

definition call :: "kcall \<Rightarrow> kernel \<Rightarrow> kernel" where
  "call c s = s\<lparr>klog := klog s @ [c]\<rparr>"

text \<open>
  Modelled from the spec: \<^verbatim>\<open>killed\<close> and \<^verbatim>\<open>setkilled\<close> (proc.c), the spec's
  \<^verbatim>\<open>is-killed(process)\<close> and \<^verbatim>\<open>mark-killed(process)\<close>, read and set \<^verbatim>\<open>p->killed\<close>.
\<close>

definition killed :: "kernel \<Rightarrow> bool" where
  "killed s = p_killed s"

definition setkilled :: "kernel \<Rightarrow> kernel" where
  "setkilled s = s\<lparr>p_killed := True\<rparr>"

text \<open>
  Modelled from the spec: \<^verbatim>\<open>intr_on\<close>, \<^verbatim>\<open>intr_off\<close> and \<^verbatim>\<open>intr_get\<close> (riscv.h) set, clear
  and test the interrupt-enable bit of \<^verbatim>\<open>sstatus\<close>.
\<close>

definition intr_on :: "kconsts \<Rightarrow> kernel \<Rightarrow> kernel" where
  "intr_on h s = s\<lparr>sstatus := sstatus s OR SSTATUS_SIE h\<rparr>"

definition intr_off :: "kconsts \<Rightarrow> kernel \<Rightarrow> kernel" where
  "intr_off h s = s\<lparr>sstatus := sstatus s AND NOT (SSTATUS_SIE h)\<rparr>"

definition intr_get :: "kconsts \<Rightarrow> kernel \<Rightarrow> bool" where
  "intr_get h s \<longleftrightarrow> sstatus s AND SSTATUS_SIE h \<noteq> 0"

text \<open>The macro \<^verbatim>\<open>PGROUNDDOWN(a)\<close> of riscv.h, \<^verbatim>\<open>(a) & ~(PGSIZE-1)\<close>.\<close>

definition PGROUNDDOWN :: "kconsts \<Rightarrow> 64 word \<Rightarrow> 64 word" where
  "PGROUNDDOWN h a = a AND NOT (PGSIZE h - 1)"

text \<open>
  Modelled from the spec: \<^verbatim>\<open>readi\<close> (fs.c) is not among the sources.  The spec's
  \<^verbatim>\<open>read(file, dest, offset, len) -> bytes_read\<close> copies the bytes of the file from
  \<open>offset\<close> on, at most \<open>len\<close> of them and no more than the file has left, to the start
  of the page at \<open>dst\<close>, and returns their number; a failed read returns \<open>-1\<close> and
  copies nothing.
\<close>

definition readi :: "env \<Rightarrow> inode \<Rightarrow> addr \<Rightarrow> 64 word \<Rightarrow> 64 word \<Rightarrow> kernel \<Rightarrow> int \<times> kernel" where
  "readi e ip dst off n s =
     (if readi_error e then (- 1, call (Readi_call off n (- 1)) s)
      else
        let bytes = take (unat n) (drop (unat off) ip);
            s1 = s\<lparr>kmem := (kmem s)(dst := bytes @ drop (length bytes) (kmem s dst))\<rparr>
        in (int (length bytes), call (Readi_call off n (int (length bytes))) s1))"

text \<open>
  Modelled from the spec: \<^verbatim>\<open>mappages\<close> (vm.c), the spec's
  \<^verbatim>\<open>map(pagetable, va, pa, len, perm) -> result\<close>; a result of \<open>0\<close> installs the mapping.
\<close>

definition mappages :: "env \<Rightarrow> 64 word \<Rightarrow> addr \<Rightarrow> 32 word \<Rightarrow> kernel \<Rightarrow> int \<times> kernel" where
  "mappages e va pa perm s =
     (let s1 = call (Mappages_call va pa perm (mappages_ret e)) s
      in if mappages_ret e = 0 then (0, s1\<lparr>pagetable := (va, pa, perm) # pagetable s1\<rparr>)
         else (mappages_ret e, s1))"

subsection \<open>Device interrupts\<close>

text \<open>\<^verbatim>\<open>void clockintr()\<close>.\<close>

definition clockintr :: "env \<Rightarrow> kernel \<Rightarrow> kernel" where
  "clockintr e s =
     (let s1 = (if cpuid e = 0 then call Wakeup_ticks (s\<lparr>ticks := ticks s + 1\<rparr>) else s)
      in s1\<lparr>stimecmp := r_time e + 1000000\<rparr>)"

text \<open>\<^verbatim>\<open>int devintr()\<close>: the value returned and the new state.\<close>

definition devintr :: "kconsts \<Rightarrow> env \<Rightarrow> kernel \<Rightarrow> int \<times> kernel" where
  "devintr h e s =
     (if scause s = 0x8000000000000009 then
        let irq = plic_claim e;
            s1 = call (Plic_claim irq) s;
            s2 = (if irq = UART0_IRQ h then call Uartintr s1
                  else if irq = VIRTIO0_IRQ h then call Virtio_disk_intr s1
                  else if irq \<noteq> 0 then call (Printf_unexpected_irq irq) s1
                  else s1);
            s3 = (if irq \<noteq> 0 then call (Plic_complete irq) s2 else s2)
        in (1, s3)
      else if scause s = 0x8000000000000005 then (2, clockintr e s)
      else (0, s))"

subsection \<open>Traps from the kernel\<close>

text \<open>\<^verbatim>\<open>void kerneltrap()\<close>: the panic message, or the state on return.\<close>

definition kerneltrap :: "kconsts \<Rightarrow> env \<Rightarrow> kernel \<Rightarrow> string + kernel" where
  "kerneltrap h e s =
     (let sepc0 = sepc s; sstatus0 = sstatus s; scause0 = scause s
      in if sstatus0 AND SSTATUS_SPP h = 0 then Inl ''kerneltrap: not from supervisor mode''
         else if intr_get h s then Inl ''kerneltrap: interrupts enabled''
         else
           let (which_dev, s1) = devintr h e s
           in if which_dev = 0 then Inl ''kerneltrap''
              else
                let s2 = (if which_dev = 2 \<and> \<not> myproc_null e
                          then yield e (call Yield_call s1) else s1);
                    s3 = s2\<lparr>sepc := sepc0\<rparr>
                in Inr (s3\<lparr>sstatus := sstatus0\<rparr>))"

subsection \<open>Traps from user space\<close>

text \<open>
  The two \<^verbatim>\<open>printf\<close> lines for an unexpected \<^verbatim>\<open>scause\<close>, followed by \<^verbatim>\<open>setkilled(p)\<close>.
\<close>

definition unexpected :: "kernel \<Rightarrow> kernel" where
  "unexpected s =
     setkilled (call (Printf_sepc_stval (sepc s) (stval s))
                  (call (Printf_unexpected_scause (scause s) (p_pid s)) s))"

text \<open>\<^verbatim>\<open>va >= vma->addr && va < vma->addr + vma->len\<close>, on \<^verbatim>\<open>uint64\<close>.\<close>

definition vma_contains :: "mmap_VMA \<Rightarrow> 64 word \<Rightarrow> bool" where
  "vma_contains v va \<longleftrightarrow> vma_addr v \<le> va \<and> va < vma_addr v + vma_len v"

text \<open>The access check: the fault kind against the protection mask of the VMA.\<close>

definition prot_denied :: "kconsts \<Rightarrow> 64 word \<Rightarrow> mmap_VMA \<Rightarrow> bool" where
  "prot_denied h cause v \<longleftrightarrow>
     (cause = 0xd \<and> vma_prot v AND PROT_READ h = 0) \<or>
     (cause = 0xc \<and> vma_prot v AND PROT_EXEC h = 0) \<or>
     (cause = 0xf \<and> vma_prot v AND PROT_WRITE h = 0)"

text \<open>The page-table permissions derived from the protection mask.\<close>

definition vma_flags :: "kconsts \<Rightarrow> mmap_VMA \<Rightarrow> 32 word" where
  "vma_flags h v =
     (let f0 = PTE_U h;
          f1 = (if vma_prot v AND PROT_READ h \<noteq> 0 then f0 OR PTE_R h else f0);
          f2 = (if vma_prot v AND PROT_WRITE h \<noteq> 0 then f1 OR PTE_W h else f1)
      in if vma_prot v AND PROT_EXEC h \<noteq> 0 then f2 OR PTE_X h else f2)"

text \<open>
  The end of the loop body, \<^verbatim>\<open>mappages(...)\<close> and its failure branch; \<^verbatim>\<open>find\<close> is
  already \<open>1\<close>.
\<close>

definition map_fault_page :: "kconsts \<Rightarrow> env \<Rightarrow> mmap_VMA \<Rightarrow> 64 word \<Rightarrow> addr \<Rightarrow> kernel \<Rightarrow> kernel" where
  "map_fault_page h e v va pa s =
     (let (r, s1) = mappages e (PGROUNDDOWN h va) pa (vma_flags h v) s
      in if r \<noteq> 0
         then setkilled (call (Printf_msg ''usertrap(): mappages failed'')
                (call (Kfree_call pa) (s1\<lparr>kfreelist := kfree pa (kfreelist s1)\<rparr>)))
         else s1)"

text \<open>
  The loop body for a valid VMA that contains \<open>va\<close>; every path through it ends in
  \<^verbatim>\<open>break\<close>.  The result is the value of \<^verbatim>\<open>find\<close> and the new state.  \<^verbatim>\<open>memset\<close>
  fills the new page with \<^verbatim>\<open>PGSIZE\<close> zero bytes; the test \<^verbatim>\<open>f == 0\<close> inside
  \<^verbatim>\<open>if (vma->file != 0)\<close> is never true and has no branch here.
\<close>

definition vma_fault :: "kconsts \<Rightarrow> env \<Rightarrow> mmap_VMA \<Rightarrow> 64 word \<Rightarrow> kernel \<Rightarrow> bool \<times> kernel" where
  "vma_fault h e v va s =
     (if prot_denied h (scause s) v then (False, unexpected s)
      else
        let (pa, fl) = kalloc (kfreelist s);
            s1 = call (Kalloc_call pa) (s\<lparr>kfreelist := fl\<rparr>)
        in if pa = 0
           then (False, setkilled (call (Printf_msg ''usertrap(): kalloc failed'') s1))
           else
             let s2 = s1\<lparr>kmem := (kmem s1)(pa := replicate (unat (PGSIZE h)) 0)\<rparr>
             in (case vma_file v of
                   None \<Rightarrow> (True, map_fault_page h e v va pa s2)
                 | Some ip \<Rightarrow>
                     let s3 = call Ilock (call Begin_op s2);
                         (n, s4) = readi e ip pa
                                     (PGROUNDDOWN h va - vma_addr v + vma_offset v) (PGSIZE h) s3;
                         s5 = call End_op (call Iunlock s4)
                     in if n < 0
                        then (True, setkilled (call (Printf_msg ''usertrap(): fileread failed'')
                               (call (Kfree_call pa) (s5\<lparr>kfreelist := kfree pa (kfreelist s5)\<rparr>))))
                        else (True, map_fault_page h e v va pa s5)))"

text \<open>
  The \<^verbatim>\<open>for\<close> loop over \<^verbatim>\<open>p->vma[0 .. MAX_VMA-1]\<close>: invalid slots and slots that do not
  contain \<open>va\<close> are skipped, the first valid slot that contains it is handled and ends
  the loop.
\<close>

fun vma_scan :: "kconsts \<Rightarrow> env \<Rightarrow> mmap_VMA list \<Rightarrow> 64 word \<Rightarrow> kernel \<Rightarrow> bool \<times> kernel" where
  "vma_scan h e [] va s = (False, s)"
| "vma_scan h e (v # vs) va s =
     (if vma_valid v = 0 then vma_scan h e vs va s
      else if vma_contains v va then vma_fault h e v va s
      else vma_scan h e vs va s)"

text \<open>The page-fault branch of \<^verbatim>\<open>usertrap\<close>.\<close>

definition pagefault :: "kconsts \<Rightarrow> env \<Rightarrow> kernel \<Rightarrow> kernel" where
  "pagefault h e s =
     (let (find, s1) = vma_scan h e (p_vma s) (stval s) s
      in if \<not> find then unexpected s1 else s1)"

text \<open>
  \<^verbatim>\<open>void usertrapret(void)\<close>, as far as the state kept here goes: interrupts off,
  \<^verbatim>\<open>stvec\<close> to the trampoline, \<^verbatim>\<open>SPP\<close> cleared and \<^verbatim>\<open>SPIE\<close> set, \<^verbatim>\<open>sepc\<close> from the
  trapframe.  (The \<^verbatim>\<open>kernel_*\<close> fields of the trapframe and \<^verbatim>\<open>satp\<close> are not tracked.)
\<close>

definition usertrapret :: "kconsts \<Rightarrow> kernel \<Rightarrow> kernel" where
  "usertrapret h s =
     (let s1 = intr_off h s;
          s2 = s1\<lparr>stvec := Trampoline_uservec\<rparr>;
          x = (sstatus s2 AND NOT (SSTATUS_SPP h)) OR SSTATUS_SPIE h;
          s3 = s2\<lparr>sstatus := x\<rparr>
      in s3\<lparr>sepc := tf_epc s3\<rparr>)"

text \<open>
  The common end of \<^verbatim>\<open>usertrap\<close>, from the second \<^verbatim>\<open>if (killed(p)) exit(-1);\<close> on.
\<close>

definition usertrap_end :: "kconsts \<Rightarrow> env \<Rightarrow> int \<Rightarrow> kernel \<Rightarrow> ending \<times> kernel" where
  "usertrap_end h e which_dev s =
     (if killed s then (Exit (- 1), s)
      else
        let s1 = (if which_dev = 2 then yield e (call Yield_call s) else s)
        in (Return_to_user, usertrapret h s1))"

text \<open>\<^verbatim>\<open>void usertrap(void)\<close>: how it ends, and the state at that point.\<close>

definition usertrap :: "kconsts \<Rightarrow> env \<Rightarrow> kernel \<Rightarrow> ending \<times> kernel" where
  "usertrap h e s =
     (if sstatus s AND SSTATUS_SPP h \<noteq> 0 then (Panic ''usertrap: not from user mode'', s)
      else
        let s1 = s\<lparr>stvec := Kernelvec\<rparr>;
            s2 = s1\<lparr>tf_epc := sepc s1\<rparr>
        in if scause s2 = 8 then
             (if killed s2 then (Exit (- 1), s2)
              else
                let s3 = s2\<lparr>tf_epc := tf_epc s2 + 4\<rparr>;
                    s4 = intr_on h s3
                in usertrap_end h e 0 (syscall e (call Syscall_call s4)))
           else
             let (which_dev, s3) = devintr h e s2
             in if which_dev \<noteq> 0 then usertrap_end h e which_dev s3
                else if scause s3 = 0xd \<or> scause s3 = 0xf \<or> scause s3 = 0xc
                then usertrap_end h e which_dev (pagefault h e s3)
                else usertrap_end h e which_dev (unexpected s3))"

subsection \<open>Scenarios\<close>

text \<open>
  A process with three VMA slots: an unused slot whose stale range covers everything,
  a readable and writable mapping of two pages backed by a five-byte file, and a
  read-only anonymous page.  Two pages are free.
\<close>

definition proc_vmas :: "mmap_VMA list" where
  "proc_vmas =
     [\<lparr> vma_valid = 0, vma_addr = 0, vma_len = 0xffffffff, vma_prot = 7,
         vma_file = None, vma_offset = 0 \<rparr>,
      \<lparr> vma_valid = 1, vma_addr = 0x40000000, vma_len = 0x2000, vma_prot = 3,
         vma_file = Some [0x68, 0x65, 0x6c, 0x6c, 0x6f], vma_offset = 0 \<rparr>,
      \<lparr> vma_valid = 1, vma_addr = 0x50000000, vma_len = 0x1000, vma_prot = 1,
         vma_file = None, vma_offset = 0 \<rparr>]"

definition user_state :: kernel where
  "user_state =
     \<lparr> sstatus = 0x20, sepc = 0x1000, scause = 8, stval = 0, stvec = Trampoline_uservec,
       stimecmp = 0, p_killed = False, p_pid = 3, tf_epc = 0, p_vma = proc_vmas,
       pagetable = [], kfreelist = [0x87200000, 0x87201000], kmem = (\<lambda>pa. []),
       ticks = 0, klog = [] \<rparr>"

text \<open>
  An environment in which the network card (interrupt 33 on xv6's platform) is the
  claimed source, \<^verbatim>\<open>syscall()\<close> changes nothing, and a \<^verbatim>\<open>yield()\<close> comes back after
  another process has taken a system call of its own on this hart.
\<close>

definition sample_env :: env where
  "sample_env =
     \<lparr> plic_claim = 33, cpuid = 0, r_time = 5000, myproc_null = False,
       yield = (\<lambda>s. s\<lparr>sepc := 0x2000, sstatus := 0x22, scause := 8\<rparr>),
       syscall = (\<lambda>s. s), mappages_ret = 0, readi_error = False \<rparr>"

text \<open>
  The invariant of the process's VMA table: two different valid slots never contain the
  same address.
\<close>

definition vma_disjoint :: "mmap_VMA list \<Rightarrow> bool" where
  "vma_disjoint vs \<longleftrightarrow>
     (\<forall>i < length vs. \<forall>j < length vs.
        i \<noteq> j \<and> vma_valid (vs ! i) \<noteq> 0 \<and> vma_valid (vs ! j) \<noteq> 0 \<longrightarrow>
        (\<forall>a. \<not> (vma_contains (vs ! i) a \<and> vma_contains (vs ! j) a)))"

text \<open>
  The hart in kernel mode, interrupted by the timer at \<open>0x80001234\<close> with interrupts
  disabled.
\<close>

definition ktimer_state :: kernel where
  "ktimer_state = user_state\<lparr>sstatus := 0x100, sepc := 0x80001234,
                             scause := 0x8000000000000005\<rparr>"

section \<open>Transmit: results\<close>

lemma e1000_transmit_full:
  "\<not> e1000_lock s \<Longrightarrow> 0 < N \<Longrightarrow>
   \<not> tx_done c (tx_ring s (unat (regs s E1000_TDT) mod N)) \<Longrightarrow>
   e1000_transmit N c buf len s = Inr (- 1, s)"
  by (simp add: e1000_transmit_def acquire_def release_def holding_def Let_def not_le)

lemma tx_done_status0: "\<not> tx_done c (d\<lparr>tx_status := 0\<rparr>)"
  by (simp add: tx_done_def)

lemma e1000_transmit_ok:
  "\<not> e1000_lock s \<Longrightarrow> 0 < N \<Longrightarrow>
   tx_done c (tx_ring s (unat (regs s E1000_TDT) mod N)) \<Longrightarrow>
   \<exists>s'. e1000_transmit N c buf len s = Inr (0, s') \<and> \<not> e1000_lock s' \<and>
     tx_bufs s' = (tx_bufs s)(unat (regs s E1000_TDT) mod N := buf) \<and>
     tx_ring s' = (tx_ring s)(unat (regs s E1000_TDT) mod N :=
        (tx_ring s (unat (regs s E1000_TDT) mod N))\<lparr>tx_addr := buf, tx_length := of_int len,
           tx_cmd := ucast (E1000_TXD_CMD_EOP c OR E1000_TXD_CMD_RS c), tx_status := 0\<rparr>) \<and>
     regs s' = (regs s)(E1000_TDT := of_nat ((unat (regs s E1000_TDT) mod N + 1) mod N)) \<and>
     rx_ring s' = rx_ring s \<and> rx_bufs s' = rx_bufs s \<and> delivered s' = delivered s \<and>
     freelist s' = (if tx_bufs s (unat (regs s E1000_TDT) mod N) \<noteq> 0
                    then kfree (tx_bufs s (unat (regs s E1000_TDT) mod N)) (freelist s)
                    else freelist s)"
  by (simp add: e1000_transmit_def acquire_def release_def holding_def Let_def not_le)

lemma e1000_transmit_mono:
  "e1000_transmit N c buf len s = Inr (r, s') \<Longrightarrow> tx_done c (tx_ring s' i) \<Longrightarrow>
   tx_done c (tx_ring s i)"
  by (auto simp: e1000_transmit_def acquire_def release_def holding_def Let_def tx_done_status0
      split: if_splits)

lemma transmit_all_mono:
  "transmit_all N c reqs s = Inr (rs, s') \<Longrightarrow> tx_done c (tx_ring s' i) \<Longrightarrow>
   tx_done c (tx_ring s i)"
proof (induction reqs arbitrary: s rs)
  case Nil
  then show ?case by simp
next
  case (Cons q reqs)
  obtain buf len where q: "q = (buf, len)" by (cases q)
  from Cons.prems(1) q obtain r s1 rs1 where
    a: "e1000_transmit N c buf len s = Inr (r, s1)" and
    b: "transmit_all N c reqs s1 = Inr (rs1, s')"
    by (auto split: sum.splits prod.splits)
  from Cons.IH [OF b Cons.prems(2)] have "tx_done c (tx_ring s1 i)" .
  with a show ?case by (rule e1000_transmit_mono)
qed

lemma transmit_all_append:
  "transmit_all N c (xs @ ys) s =
     (case transmit_all N c xs s of
        Inl e \<Rightarrow> Inl e
      | Inr (rs, s1) \<Rightarrow>
          (case transmit_all N c ys s1 of
             Inl e \<Rightarrow> Inl e
           | Inr (rs', s2) \<Rightarrow> Inr (rs @ rs', s2)))"
  by (induction xs arbitrary: s) (auto split: sum.splits prod.splits)

lemma unat_of_nat_mod_ring:
  "0 < N \<Longrightarrow> N \<le> 2 ^ 32 \<Longrightarrow> unat (of_nat (x mod N) :: 32 word) = x mod N"
proof -
  assume "0 < N" "N \<le> 2 ^ 32"
  then have "x mod N < 2 ^ 32"
    by (meson mod_less_divisor less_le_trans)
  then show ?thesis by (simp add: unat_of_nat)
qed

lemma ring_step_neq:
  fixes t :: nat
  assumes "t < N" "j < N" "0 < j"
  shows "(t + j) mod N \<noteq> t"
proof
  assume h: "(t + j) mod N = t"
  have "(t + j) mod N = (t mod N + j) mod N" by (simp add: mod_add_left_eq)
  show False
  proof (cases "t + j < N")
    case True
    then show False using h assms by simp
  next
    case False
    then have "(t + j) mod N = t + j - N"
      using assms by (simp add: mod_if)
    then show False using h assms False by linarith
  qed
qed

lemma transmit_run:
  assumes "0 < N" "N \<le> 2 ^ 32"
  shows "\<not> e1000_lock s \<Longrightarrow> length reqs \<le> N \<Longrightarrow>
     (\<forall>j < length reqs. tx_done c (tx_ring s ((unat (regs s E1000_TDT) + j) mod N))) \<Longrightarrow>
     \<exists>s'. transmit_all N c reqs s = Inr (replicate (length reqs) 0, s') \<and> \<not> e1000_lock s' \<and>
        unat (regs s' E1000_TDT) mod N = (unat (regs s E1000_TDT) + length reqs) mod N \<and>
        (\<forall>j < length reqs. \<not> tx_done c (tx_ring s' ((unat (regs s E1000_TDT) + j) mod N)))"
proof (induction reqs arbitrary: s)
  case Nil
  then show ?case by simp
next
  case (Cons q reqs)
  obtain buf len where q: "q = (buf, len)" by (cases q)
  let ?t = "unat (regs s E1000_TDT) mod N"
  have d0: "tx_done c (tx_ring s ?t)" using Cons.prems(3) by force
  from e1000_transmit_ok [OF Cons.prems(1) assms(1) d0, of buf len] obtain s1 where
    s1: "e1000_transmit N c buf len s = Inr (0, s1)" and l1: "\<not> e1000_lock s1" and
    r1: "tx_ring s1 = (tx_ring s)(?t := (tx_ring s ?t)\<lparr>tx_addr := buf, tx_length := of_int len,
           tx_cmd := ucast (E1000_TXD_CMD_EOP c OR E1000_TXD_CMD_RS c), tx_status := 0\<rparr>)" and
    g1: "regs s1 = (regs s)(E1000_TDT := of_nat ((?t + 1) mod N))"
    by blast
  have t1: "unat (regs s1 E1000_TDT) mod N = (unat (regs s E1000_TDT) + 1) mod N"
    using g1 assms by (simp add: unat_of_nat_mod_ring mod_simps)
  have idx: "(unat (regs s1 E1000_TDT) + j) mod N = (unat (regs s E1000_TDT) + Suc j) mod N" for j
  proof -
    have "(unat (regs s1 E1000_TDT) + j) mod N = (unat (regs s1 E1000_TDT) mod N + j) mod N"
      by (simp add: mod_simps)
    also have "\<dots> = (unat (regs s E1000_TDT) + Suc j) mod N"
      by (simp add: t1 mod_simps)
    finally show ?thesis .
  qed
  have tlt: "?t < N" using assms by simp
  have ne: "(unat (regs s E1000_TDT) + Suc j) mod N \<noteq> ?t" if "Suc j < N" for j
  proof -
    have "(?t + Suc j) mod N \<noteq> ?t" using ring_step_neq [OF tlt that] by simp
    moreover have "(?t + Suc j) mod N = (unat (regs s E1000_TDT) + Suc j) mod N"
      by (rule mod_add_left_eq)
    ultimately show ?thesis by simp
  qed
  have pre: "\<forall>j < length reqs. tx_done c (tx_ring s1 ((unat (regs s1 E1000_TDT) + j) mod N))"
  proof (intro allI impI)
    fix j assume j: "j < length reqs"
    then have "Suc j < N" using Cons.prems(2) by simp
    then have "(unat (regs s E1000_TDT) + Suc j) mod N \<noteq> ?t" by (rule ne)
    moreover have "tx_done c (tx_ring s ((unat (regs s E1000_TDT) + Suc j) mod N))"
    proof -
      have "Suc j < length (q # reqs)" using j by simp
      with Cons.prems(3) show ?thesis by blast
    qed
    ultimately show "tx_done c (tx_ring s1 ((unat (regs s1 E1000_TDT) + j) mod N))"
      by (simp add: idx r1)
  qed
  have len: "length reqs \<le> N" using Cons.prems(2) by simp
  from Cons.IH [OF l1 len pre] obtain s' where
    run: "transmit_all N c reqs s1 = Inr (replicate (length reqs) 0, s')" and
    l': "\<not> e1000_lock s'" and
    t': "unat (regs s' E1000_TDT) mod N = (unat (regs s1 E1000_TDT) + length reqs) mod N" and
    nd: "\<forall>j < length reqs. \<not> tx_done c (tx_ring s' ((unat (regs s1 E1000_TDT) + j) mod N))"
    by blast
  have nd0: "\<not> tx_done c (tx_ring s1 ?t)" by (simp add: r1 tx_done_status0)
  have nd0': "\<not> tx_done c (tx_ring s' ?t)"
    using transmit_all_mono [OF run] nd0 by blast
  have all: "\<not> tx_done c (tx_ring s' ((unat (regs s E1000_TDT) + j) mod N))"
    if "j < length (q # reqs)" for j
  proof (cases j)
    case 0
    then show ?thesis using nd0' by simp
  next
    case (Suc k)
    then have "k < length reqs" using that by simp
    then show ?thesis using nd idx Suc by simp
  qed
  have "transmit_all N c (q # reqs) s = Inr (replicate (length (q # reqs)) 0, s')"
    by (simp add: q s1 run)
  moreover have "unat (regs s' E1000_TDT) mod N = (unat (regs s E1000_TDT) + length (q # reqs)) mod N"
    using t' idx [of "length reqs"] by simp
  ultimately show ?case using l' all by blast
qed

text \<open>
  C10.  A transmit that finds the descriptor at the tail index not done fails and leaves
  the driver exactly as it was: the state returned with \<open>-1\<close> is the state the call
  started in (no descriptor or buffer slot written, nothing freed, tail register and
  lock as before).
\<close>

theorem e1000_transmit_full_unchanged:
  assumes "\<not> e1000_lock s" and "0 < N"
    and "\<not> tx_done c (tx_ring s (unat (regs s E1000_TDT) mod N))"
  shows "e1000_transmit N c buf len s = Inr (- 1, s)"
  using assms by (rule e1000_transmit_full)

theorem e1000_transmit_full_unchanged_witness:
  "e1000_transmit TX_RING_SIZE intel_dev 0x88000000 64
     (e1000_boot\<lparr>tx_ring := (tx_ring e1000_boot)(0 := \<lparr> tx_addr = 0x88010000, tx_length = 64,
                                                      tx_cmd = 9, tx_status = 0 \<rparr>)\<rparr>)
   = Inr (- 1, e1000_boot\<lparr>tx_ring := (tx_ring e1000_boot)(0 := \<lparr> tx_addr = 0x88010000,
                                         tx_length = 64, tx_cmd = 9, tx_status = 0 \<rparr>)\<rparr>)"
  by (rule e1000_transmit_full_unchanged)
     (simp_all add: e1000_boot_def TX_RING_SIZE_def tx_done_def intel_dev_def)

text \<open>
  C2.  Called with the lock free, a transmit succeeds exactly when the descriptor at
  \<open>tail mod N\<close> is done: it then returns \<open>0\<close>, the slot and its descriptor hold the
  caller's buffer, the tail register is \<open>(tail + 1) mod N\<close> and the lock is free again;
  otherwise it returns \<open>-1\<close>.  From a ring whose \<open>N\<close> descriptors are all done,
  \<open>N + 1\<close> transmits in a row return \<open>N\<close> times \<open>0\<close> and then \<open>-1\<close>.
\<close>

theorem e1000_transmit_iff_done:
  assumes "\<not> e1000_lock s" and "0 < N" and "N \<le> 2 ^ 32"
  shows "(let tail = unat (regs s E1000_TDT) mod N in
          (tx_done c (tx_ring s tail) \<longrightarrow>
             (\<exists>s'. e1000_transmit N c buf len s = Inr (0, s') \<and> \<not> e1000_lock s' \<and>
                tx_bufs s' tail = buf \<and> tx_addr (tx_ring s' tail) = buf \<and>
                regs s' E1000_TDT = of_nat ((tail + 1) mod N))) \<and>
          (\<not> tx_done c (tx_ring s tail) \<longrightarrow>
             e1000_transmit N c buf len s = Inr (- 1, s))) \<and>
         ((\<forall>i < N. tx_done c (tx_ring s i)) \<and> length reqs = N + 1 \<longrightarrow>
            (\<exists>s'. transmit_all N c reqs s = Inr (replicate N 0 @ [- 1], s')))"
proof -
  let ?t = "unat (regs s E1000_TDT) mod N"
  have ok: "\<exists>s'. e1000_transmit N c buf len s = Inr (0, s') \<and> \<not> e1000_lock s' \<and>
                tx_bufs s' ?t = buf \<and> tx_addr (tx_ring s' ?t) = buf \<and>
                regs s' E1000_TDT = of_nat ((?t + 1) mod N)"
    if d: "tx_done c (tx_ring s ?t)"
    using e1000_transmit_ok [OF assms(1,2) d, of buf len] by auto
  have full: "e1000_transmit N c buf len s = Inr (- 1, s)" if "\<not> tx_done c (tx_ring s ?t)"
    using e1000_transmit_full [OF assms(1,2) that] .
  have run: "\<exists>s'. transmit_all N c reqs s = Inr (replicate N 0 @ [- 1], s')"
    if all: "\<forall>i < N. tx_done c (tx_ring s i)" and len: "length reqs = N + 1"
  proof -
    obtain xs q where reqs: "reqs = xs @ [q]" and lxs: "length xs = N"
      using len by (cases reqs rule: rev_cases) auto
    obtain b l where q: "q = (b, l)" by (cases q)
    have pre: "\<forall>j < length xs. tx_done c (tx_ring s ((unat (regs s E1000_TDT) + j) mod N))"
      using all assms(2) by simp
    from transmit_run [OF assms(2,3) assms(1) _ pre] lxs obtain s1 where
      r1: "transmit_all N c xs s = Inr (replicate N 0, s1)" and l1: "\<not> e1000_lock s1" and
      t1: "unat (regs s1 E1000_TDT) mod N = (unat (regs s E1000_TDT) + N) mod N" and
      nd: "\<forall>j < N. \<not> tx_done c (tx_ring s1 ((unat (regs s E1000_TDT) + j) mod N))"
      by auto
    have "\<not> tx_done c (tx_ring s1 ((unat (regs s E1000_TDT) + 0) mod N))"
      using nd assms(2) by blast
    then have "\<not> tx_done c (tx_ring s1 (unat (regs s1 E1000_TDT) mod N))"
      by (simp add: t1)
    from e1000_transmit_full [OF l1 assms(2) this]
    have "e1000_transmit N c b l s1 = Inr (- 1, s1)" .
    then have "transmit_all N c reqs s = Inr (replicate N 0 @ [- 1], s1)"
      by (simp add: reqs q transmit_all_append r1)
    then show ?thesis by blast
  qed
  show ?thesis
    unfolding Let_def using ok full run by blast
qed

theorem e1000_transmit_iff_done_witness:
  "(\<exists>s'. e1000_transmit TX_RING_SIZE intel_dev 0x88000000 64 e1000_boot = Inr (0, s') \<and>
      \<not> e1000_lock s' \<and> tx_bufs s' 0 = 0x88000000 \<and> tx_addr (tx_ring s' 0) = 0x88000000 \<and>
      regs s' E1000_TDT = 1) \<and>
   (\<exists>s'. transmit_all TX_RING_SIZE intel_dev frames17 e1000_boot
           = Inr ([0, 0, 0, 0, 0, 0, 0, 0, 0, 0, 0, 0, 0, 0, 0, 0, - 1], s'))"
proof -
  have l: "\<not> e1000_lock e1000_boot" by (simp add: e1000_boot_def)
  have n: "0 < TX_RING_SIZE" "TX_RING_SIZE \<le> 2 ^ 32" by (simp_all add: TX_RING_SIZE_def)
  have t: "unat (regs e1000_boot E1000_TDT) mod TX_RING_SIZE = 0"
    by (simp add: e1000_boot_def)
  have d: "tx_done intel_dev (tx_ring e1000_boot i)" for i
    by (simp add: e1000_boot_def tx_done_def intel_dev_def)
  have len: "length frames17 = TX_RING_SIZE + 1"
    by (simp add: frames17_def TX_RING_SIZE_def)
  have r: "replicate TX_RING_SIZE (0::int) @ [- 1]
           = [0, 0, 0, 0, 0, 0, 0, 0, 0, 0, 0, 0, 0, 0, 0, 0, - 1]"
    by (simp add: TX_RING_SIZE_def numeral_eq_Suc)
  have one: "(0 + 1) mod TX_RING_SIZE = 1"
    by (simp add: TX_RING_SIZE_def)
  note th = e1000_transmit_iff_done [OF l n, of intel_dev "0x88000000" 64 frames17,
      unfolded Let_def t r one]
  show ?thesis
    using th d len by simp
qed

section \<open>Receive: results\<close>

lemma kalloc_nonzero:
  "kalloc fl = (pa, rest) \<Longrightarrow> pa \<noteq> 0 \<Longrightarrow> fl = pa # rest"
  by (auto simp: kalloc_def split: list.splits)

lemma fold_hw_complete_addr:
  "rx_addr (fold (hw_complete c) hw ring i) = rx_addr (ring i)"
  by (induction hw arbitrary: ring) (auto simp: hw_complete_def)

lemma recv_deliver_Inr:
  assumes "recv_deliver c hw t s = Inr s'"
  shows "e1000_lock s" and "e1000_lock s'"
    and "delivered s' =
           delivered s @ [Net_rx t (rx_bufs s t) (uint (rx_length (rx_ring s t))) False]"
    and "freelist s = rx_bufs s' t # freelist s'" and "rx_bufs s' t \<noteq> 0"
    and "rx_bufs s' = (rx_bufs s)(t := rx_bufs s' t)"
    and "rx_ring s' = (fold (hw_complete c) hw (rx_ring s))(t :=
           (fold (hw_complete c) hw (rx_ring s) t)\<lparr>rx_addr := rx_bufs s' t, rx_status := 0\<rparr>)"
    and "regs s' = (regs s)(E1000_RDT := of_nat t)"
    and "tx_ring s' = tx_ring s" and "tx_bufs s' = tx_bufs s"
  using assms
  by (auto simp: recv_deliver_def release_def acquire_def net_rx_def device_rx_def Let_def
      dest: kalloc_nonzero split: if_splits prod.splits)

lemma recv_deliver_no_page:
  "e1000_lock s \<Longrightarrow> freelist s = [] \<Longrightarrow> recv_deliver c hw t s = Inl ''e1000''"
  by (simp add: recv_deliver_def release_def acquire_def net_rx_def device_rx_def Let_def
      kalloc_def)

lemma recv_deliver_Inl:
  "e1000_lock s \<Longrightarrow> recv_deliver c hw t s = Inl e \<Longrightarrow> e = ''e1000''"
  by (auto simp: recv_deliver_def release_def acquire_def net_rx_def device_rx_def Let_def
      split: if_splits prod.splits)

lemma recv_loop_induct [consumes 1, case_names stop step]:
  assumes run: "e1000_recv_loop N c hws t s = Inr s'"
    and stop: "\<And>hws t. t < N \<Longrightarrow> \<not> rx_done c (rx_ring s' t) \<Longrightarrow> P hws t s'"
    and step: "\<And>hws t s s1. t < N \<Longrightarrow> rx_done c (rx_ring s t) \<Longrightarrow>
         recv_deliver c (case hws of [] \<Rightarrow> [] | hw # _ \<Rightarrow> hw) t s = Inr s1 \<Longrightarrow>
         e1000_recv_loop N c (tl hws) ((t + 1) mod N) s1 = Inr s' \<Longrightarrow>
         P (tl hws) ((t + 1) mod N) s1 \<Longrightarrow> P hws t s"
  shows "P hws t s"
  using run stop step
proof (induction N c hws t s rule: e1000_recv_loop.induct)
  case (1 N c hws tail s)
  note run = "1.prems"(1) and stop = "1.prems"(2) and step = "1.prems"(3)
  from run have lt: "tail < N"
    by (subst (asm) e1000_recv_loop.simps) (auto split: if_splits)
  show ?case
  proof (cases "rx_done c (rx_ring s tail)")
    case False
    with run lt have "s' = s"
      by (subst (asm) e1000_recv_loop.simps) simp
    with False lt stop show ?thesis by blast
  next
    case True
    with run lt obtain s1 where
      d: "recv_deliver c (case hws of [] \<Rightarrow> [] | hw # _ \<Rightarrow> hw) tail s = Inr s1" and
      r: "e1000_recv_loop N c (tl hws) ((tail + 1) mod N) s1 = Inr s'"
      by (subst (asm) e1000_recv_loop.simps) (auto split: sum.splits)
    have "P (tl hws) ((tail + 1) mod N) s1"
      using "1.IH" [of s1] lt True d r stop step by (simp add: not_le)
    with lt True d r step show ?thesis by blast
  qed
qed


lemma recv_deliver_owned:
  assumes "recv_deliver c hw t s = Inr s1"
  shows "rx_owned s1 t" and "rx_owned s i \<Longrightarrow> rx_owned s1 i"
proof -
  note f = recv_deliver_Inr [OF assms]
  show "rx_owned s1 t"
    using f(5) by (simp add: rx_owned_def f(7))
  show "rx_owned s1 i" if "rx_owned s i"
  proof (cases "i = t")
    case True
    then show ?thesis using f(5) by (simp add: rx_owned_def f(7))
  next
    case False
    have "rx_bufs s1 i = rx_bufs s i"
      using False by (subst f(6)) simp
    moreover have "rx_addr (rx_ring s1 i) = rx_addr (rx_ring s i)"
      using False by (simp add: f(7) fold_hw_complete_addr)
    ultimately show ?thesis using that by (simp add: rx_owned_def)
  qed
qed

lemma recv_loop_owned:
  assumes "e1000_recv_loop N c hws t s = Inr s'"
  shows "rx_owned s i \<Longrightarrow> rx_owned s' i"
  using assms
proof (induction hws t s rule: recv_loop_induct)
  case (stop hws t)
  then show ?case by simp
next
  case (step hws t s s1)
  from recv_deliver_owned(2) [OF step(3) step.prems] step(5) show ?case by blast
qed

lemma recv_loop_lock:
  assumes "e1000_recv_loop N c hws t s = Inr s'"
  shows "e1000_lock s \<Longrightarrow> e1000_lock s'"
  using assms
proof (induction hws t s rule: recv_loop_induct)
  case (stop hws t)
  then show ?case by simp
next
  case (step hws t s s1)
  from recv_deliver_Inr(2) [OF step(3)] step(5) show ?case by blast
qed

lemma ring_next:
  fixes t :: nat
  shows "((t + 1) mod N + k) mod N = (t + Suc k) mod N"
  by (simp add: mod_simps)

lemma upt_Suc_shift: "[0..<Suc n] = 0 # map Suc [0..<n]"
  by (simp add: upt_conv_Cons map_Suc_upt del: upt_Suc)


lemma recv_loop_drained:
  assumes "e1000_recv_loop N c hws t s = Inr s'"
  shows "\<exists>ds. drained N c hws t s s' ds"
  using assms
proof (induction hws t s rule: recv_loop_induct)
  case (stop hws t)
  then have "drained N c hws t s' s' []"
    by (simp add: drained_def)
  then show ?case ..
next
  case (step hws t s s1)
  let ?hw = "case hws of [] \<Rightarrow> [] | hw # _ \<Rightarrow> hw"
  let ?t1 = "(t + 1) mod N"
  let ?d0 = "Net_rx t (rx_bufs s t) (uint (rx_length (rx_ring s t))) False"
  note f = recv_deliver_Inr [OF step(3)]
  from step.IH obtain ds1 where ih: "drained N c (tl hws) ?t1 s1 s' ds1" ..
  have nxt: "(?t1 + k) mod N = (t + Suc k) mod N" for k by (rule ring_next)
  note ih' = ih [unfolded drained_def nxt]
  let ?n = "length ds1"
  let ?ds = "?d0 # ds1"
  have tN: "t < N" by (rule step(1))
  have tmod: "t mod N = t" using tN by simp
  have neq: "(t + Suc j) mod N \<noteq> t" if "Suc j < N" for j
    using ring_step_neq [OF tN that] by simp
  have c1: "delivered s' = delivered s @ ?ds"
    using ih' f(3) by simp
  have c2: "map rx_slot ?ds = map (\<lambda>k. (t + k) mod N) [0..<length ?ds]"
  proof -
    have "map rx_slot ds1 = map (\<lambda>k. (t + Suc k) mod N) [0..<?n]"
      using ih' by blast
    then show ?thesis
      by (simp add: upt_Suc_shift tmod comp_def del: upt_Suc)
  qed
  have c3: "\<forall>d \<in> set ?ds. \<not> rx_locked d"
    using ih' by simp
  have c4: "\<not> rx_done c (rx_ring s' ((t + length ?ds) mod N))"
    using ih' by simp
  have fl: "freelist s = rx_bufs s1 t # freelist s1" by (rule f(4))
  have c5: "freelist s = take (length ?ds) (freelist s) @ freelist s'"
    using ih' by (simp add: fl)
  have c6: "length ?ds \<le> length (freelist s)"
    using ih' by (simp add: fl)
  have c7: "freelist s ! k \<noteq> 0" if "k < length ?ds" for k
  proof (cases k)
    case 0
    then show ?thesis using f(5) by (simp add: fl)
  next
    case (Suc j)
    then have "j < ?n" using that by simp
    then have "freelist s1 ! j \<noteq> 0" using ih' by blast
    then show ?thesis by (simp add: fl Suc)
  qed
  have bufs1: "rx_bufs s1 i = rx_bufs s i" if "i \<noteq> t" for i
    using that by (subst f(6)) simp
  have c8: "rx_buf (?ds ! k) =
        (if k < N then rx_bufs s ((t + k) mod N) else freelist s ! (k - N))"
    if "k < length ?ds" for k
  proof (cases k)
    case 0
    then show ?thesis using tN by (simp add: tmod)
  next
    case (Suc j)
    then have j: "j < ?n" using that by simp
    then have b: "rx_buf (ds1 ! j) =
        (if j < N then rx_bufs s1 ((t + Suc j) mod N) else freelist s1 ! (j - N))"
      using ih' by blast
    consider "Suc j < N" | "Suc j = N" | "N < Suc j" by linarith
    then show ?thesis
    proof cases
      case 1
      then have "(t + Suc j) mod N \<noteq> t"
        using ring_step_neq [OF tN 1] by simp
      then show ?thesis using b 1 by (simp add: Suc bufs1)
    next
      case 2
      then have N: "N = Suc j" by simp
      have "(t + N) mod N = t" using tN by simp
      then have "(t + Suc j) mod Suc j = t" unfolding N .
      with b have "rx_buf (ds1 ! j) = rx_bufs s1 t" unfolding N by simp
      then show ?thesis unfolding Suc N by (simp add: fl)
    next
      case 3
      then have "Suc j - N = Suc (j - N)" by simp
      then show ?thesis using b 3 by (simp add: Suc fl)
    qed
  qed
  have c9: "rx_owned s' ((t + k) mod N)" if "k < length ?ds" for k
  proof (cases k)
    case 0
    have "rx_owned s1 t" by (rule recv_deliver_owned(1) [OF step(3)])
    then have "rx_owned s' t" by (rule recv_loop_owned [OF step(4)])
    then show ?thesis by (simp add: 0 tmod)
  next
    case (Suc j)
    then have "j < ?n" using that by simp
    then have "rx_owned s' ((t + Suc j) mod N)" using ih' by blast
    then show ?thesis by (simp add: Suc)
  qed
  have c10: "length ?ds \<le> N \<and>
        (\<forall>k < length ?ds. rx_done c (rx_ring s ((t + k) mod N)) \<and>
            rx_len (?ds ! k) = uint (rx_length (rx_ring s ((t + k) mod N)))) \<and>
        (length ?ds < N \<longrightarrow> \<not> rx_done c (rx_ring s ((t + length ?ds) mod N)))"
    if e: "hws = []"
  proof -
    from e step(3) have d: "recv_deliver c [] t s = Inr s1" by simp
    note r = recv_deliver_ring [OF d]
    have nd: "\<not> rx_done c (rx_ring s1 t)" by (simp add: r rx_done_status0)
    have same: "rx_ring s1 i = rx_ring s i" if "i \<noteq> t" for i
      using that by (simp add: r)
    from e ih' have
      a1: "\<forall>k < ?n. rx_done c (rx_ring s1 ((t + Suc k) mod N)) \<and>
            rx_len (ds1 ! k) = uint (rx_length (rx_ring s1 ((t + Suc k) mod N)))" and
      a2: "?n < N \<longrightarrow> \<not> rx_done c (rx_ring s1 ((t + Suc ?n) mod N))"
      by simp_all
    have lt: "?n < N"
    proof (rule ccontr)
      assume "\<not> ?n < N"
      then have "N - 1 < ?n" using tN by linarith
      with a1 have "rx_done c (rx_ring s1 ((t + Suc (N - 1)) mod N))" by blast
      moreover have "(t + Suc (N - 1)) mod N = t" using tN by simp
      ultimately show False using nd by simp
    qed
    have p1: "length ?ds \<le> N" using lt by simp
    have p2: "rx_done c (rx_ring s ((t + k) mod N)) \<and>
            rx_len (?ds ! k) = uint (rx_length (rx_ring s ((t + k) mod N)))"
      if "k < length ?ds" for k
    proof (cases k)
      case 0
      then show ?thesis using step(2) by (simp add: tmod)
    next
      case (Suc j)
      then have j: "j < ?n" using that by simp
      then have "Suc j < N" using lt by simp
      then have "(t + Suc j) mod N \<noteq> t" by (rule neq)
      then have eq: "rx_ring s1 ((t + Suc j) mod N) = rx_ring s ((t + Suc j) mod N)"
        by (rule same)
      from a1 j have "rx_done c (rx_ring s1 ((t + Suc j) mod N)) \<and>
            rx_len (ds1 ! j) = uint (rx_length (rx_ring s1 ((t + Suc j) mod N)))"
        by blast
      then show ?thesis unfolding eq Suc by simp
    qed
    have p3: "\<not> rx_done c (rx_ring s ((t + length ?ds) mod N))" if "length ?ds < N"
    proof -
      from that have "Suc ?n < N" by simp
      then have "(t + Suc ?n) mod N \<noteq> t" by (rule neq)
      then have eq: "rx_ring s1 ((t + Suc ?n) mod N) = rx_ring s ((t + Suc ?n) mod N)"
        by (rule same)
      from a2 lt have "\<not> rx_done c (rx_ring s1 ((t + Suc ?n) mod N))" by blast
      then show ?thesis unfolding eq by simp
    qed
    show ?thesis using p1 p2 p3 by blast
  qed
  have "drained N c hws t s s' ?ds"
    unfolding drained_def using c1 c2 c3 c4 c5 c6 c7 c8 c9 c10 by blast
  then show ?case ..
qed



lemma recv_loop_delivered_mono:
  assumes "e1000_recv_loop N c hws t s = Inr s'"
  shows "length (delivered s) \<le> length (delivered s')"
proof -
  from recv_loop_drained [OF assms] obtain ds where "drained N c hws t s s' ds" ..
  then show ?thesis by (simp add: drained_def)
qed

lemma recv_loop_fresh:
  assumes "e1000_recv_loop N c hws t s = Inr s'"
  shows "rx_bufs s' i = rx_bufs s i \<or>
         rx_bufs s' i \<in> set (take (length (delivered s') - length (delivered s)) (freelist s))"
  using assms
proof (induction hws t s rule: recv_loop_induct)
  case (stop hws t)
  then show ?case by simp
next
  case (step hws t s s1)
  note f = recv_deliver_Inr [OF step(3)]
  let ?n1 = "length (delivered s') - length (delivered s1)"
  have n: "length (delivered s') - length (delivered s) = Suc ?n1"
    using recv_loop_delivered_mono [OF step(4)] by (simp add: f(3))
  have sub: "set (take ?n1 (freelist s1)) \<subseteq> set (take (Suc ?n1) (freelist s))"
    by (auto simp: f(4))
  have hd: "rx_bufs s1 t \<in> set (take (Suc ?n1) (freelist s))"
    by (simp add: f(4))
  have s1: "rx_bufs s1 i = rx_bufs s i \<or> rx_bufs s1 i = rx_bufs s1 t"
    by (subst f(6)) simp
  from step.IH sub hd s1 show ?case unfolding n by auto
qed

lemma recv_loop_visited_fresh:
  assumes "e1000_recv_loop N c hws t s = Inr s'"
  shows "k < length (delivered s') - length (delivered s) \<Longrightarrow>
         rx_bufs s' ((t + k) mod N)
           \<in> set (take (length (delivered s') - length (delivered s)) (freelist s))"
  using assms
proof (induction hws t s arbitrary: k rule: recv_loop_induct)
  case (stop hws t)
  then show ?case by simp
next
  case (step hws t s s1)
  note f = recv_deliver_Inr [OF step(3)]
  let ?n1 = "length (delivered s') - length (delivered s1)"
  have n: "length (delivered s') - length (delivered s) = Suc ?n1"
    using recv_loop_delivered_mono [OF step(4)] by (simp add: f(3))
  have sub: "set (take ?n1 (freelist s1)) \<subseteq> set (take (Suc ?n1) (freelist s))"
    by (auto simp: f(4))
  have hd: "rx_bufs s1 t \<in> set (take (Suc ?n1) (freelist s))"
    by (simp add: f(4))
  show ?case
  proof (cases k)
    case 0
    have "rx_bufs s' t = rx_bufs s1 t \<or> rx_bufs s' t \<in> set (take ?n1 (freelist s1))"
      by (rule recv_loop_fresh [OF step(4)])
    with sub hd have "rx_bufs s' t \<in> set (take (Suc ?n1) (freelist s))" by auto
    then show ?thesis unfolding n using step(1) by (simp add: 0)
  next
    case (Suc j)
    with step.prems n have "j < ?n1" by simp
    from step.IH [OF this] have "rx_bufs s' ((t + Suc j) mod N) \<in> set (take ?n1 (freelist s1))"
      by (simp only: ring_next)
    with sub show ?thesis unfolding n Suc by blast
  qed
qed

lemma recv_loop_Inl:
  "e1000_recv_loop N c hws t s = Inl e \<Longrightarrow> e1000_lock s \<Longrightarrow> t < N \<Longrightarrow> e = ''e1000''"
proof (induction N c hws t s rule: e1000_recv_loop.induct)
  case (1 N c hws tail s)
  show ?case
  proof (cases "rx_done c (rx_ring s tail)")
    case False
    with "1.prems" show ?thesis
      by (subst (asm) e1000_recv_loop.simps) simp
  next
    case True
    show ?thesis
    proof (cases "recv_deliver c (case hws of [] \<Rightarrow> [] | hw # _ \<Rightarrow> hw) tail s")
      case (Inl e')
      with True "1.prems" have "e' = e"
        by (subst (asm) e1000_recv_loop.simps) simp
      with Inl "1.prems"(2) show ?thesis by (auto dest: recv_deliver_Inl)
    next
      case (Inr s1)
      with True "1.prems" have r: "e1000_recv_loop N c (tl hws) ((tail + 1) mod N) s1 = Inl e"
        by (subst (asm) e1000_recv_loop.simps) simp
      have l1: "e1000_lock s1" by (rule recv_deliver_Inr(2) [OF Inr])
      have "(tail + 1) mod N < N" using "1.prems"(3) by simp
      with "1.IH" [OF _ True Inr r l1] "1.prems"(3) show ?thesis by simp
    qed
  qed
qed

lemma e1000_recv_Inr:
  assumes "e1000_recv N c hws s = Inr s'"
  shows "\<not> e1000_lock s \<and> \<not> e1000_lock s' \<and>
     (\<exists>s2. e1000_recv_loop N c hws (rx_head N s) (s\<lparr>e1000_lock := True\<rparr>) = Inr s2 \<and>
        s' = s2\<lparr>e1000_lock := False\<rparr>)"
  using assms
  by (auto simp: e1000_recv_def acquire_def release_def rx_head_def
      split: if_splits sum.splits)


text \<open>
  The drain does return when it is entered with the lock free and the allocator holds a
  page for every delivery that can take place: at most one per entry of the device's
  schedule and then one per descriptor of the ring.
\<close>

lemma recv_deliver_returns:
  assumes "e1000_lock s" and "freelist s = pa # rest" and "pa \<noteq> 0"
  shows "\<exists>s1. recv_deliver c hw t s = Inr s1"
  using assms
  by (simp add: recv_deliver_def release_def acquire_def net_rx_def device_rx_def kalloc_def
      Let_def)

lemma done_card_le:
  fixes N :: nat
  shows "card {i. i < N \<and> rx_done c (ring i)} \<le> N"
proof -
  have "card {i. i < N \<and> rx_done c (ring i)} \<le> card {..<N}"
    by (rule card_mono) auto
  then show ?thesis by simp
qed

lemma recv_loop_returns:
  "e1000_lock s \<Longrightarrow> t < N \<Longrightarrow> 0 \<notin> set (freelist s) \<Longrightarrow>
   (if hws = [] then card {i. i < N \<and> rx_done c (rx_ring s i)} else length hws + N)
     \<le> length (freelist s) \<Longrightarrow>
   \<exists>s'. e1000_recv_loop N c hws t s = Inr s'"
proof (induction N c hws t s rule: e1000_recv_loop.induct)
  case (1 N c hws tail s)
  let ?hw = "case hws of [] \<Rightarrow> [] | hw # _ \<Rightarrow> hw"
  show ?case
  proof (cases "rx_done c (rx_ring s tail)")
    case False
    with "1.prems"(2) show ?thesis
      by (subst e1000_recv_loop.simps) simp
  next
    case True
    have pos: "freelist s \<noteq> []"
    proof (cases "hws = []")
      case hn: True
      have "tail \<in> {i. i < N \<and> rx_done c (rx_ring s i)}"
        using True "1.prems"(2) by simp
      then have "{i. i < N \<and> rx_done c (rx_ring s i)} \<noteq> {}" by blast
      then have cpos: "0 < card {i. i < N \<and> rx_done c (rx_ring s i)}"
        by (simp add: card_gt_0_iff)
      from "1.prems"(4) hn have "card {i. i < N \<and> rx_done c (rx_ring s i)} \<le> length (freelist s)"
        by simp
      with cpos have "0 < length (freelist s)" by linarith
      then show ?thesis by simp
    next
      case False
      with "1.prems"(4) have "length hws + N \<le> length (freelist s)" by simp
      with "1.prems"(2) have "0 < length (freelist s)" by linarith
      then show ?thesis by simp
    qed
    then obtain pa rest where fl: "freelist s = pa # rest"
      by (cases "freelist s") auto
    with "1.prems"(3) have pa: "pa \<noteq> 0" by auto
    from recv_deliver_returns [OF "1.prems"(1) fl pa] obtain s1 where
      d: "recv_deliver c ?hw tail s = Inr s1" by blast
    note f = recv_deliver_Inr [OF d]
    have fl1: "freelist s1 = rest" using f(4) fl by simp
    have nz: "0 \<notin> set (freelist s1)" using "1.prems"(3) fl fl1 by simp
    have t1: "(tail + 1) mod N < N" using "1.prems"(2) by simp
    have need: "(if tl hws = [] then card {i. i < N \<and> rx_done c (rx_ring s1 i)}
                 else length (tl hws) + N) \<le> length (freelist s1)"
    proof (cases hws)
      case Nil
      with d have r: "rx_ring s1 = (rx_ring s)(tail :=
          (rx_ring s tail)\<lparr>rx_addr := rx_bufs s1 tail, rx_status := 0\<rparr>)"
        by (simp add: recv_deliver_ring)
      have "card {i. i < N \<and> rx_done c (rx_ring s1 i)} < card {i. i < N \<and> rx_done c (rx_ring s i)}"
        unfolding r using "1.prems"(2) True by (intro done_card_less) (simp_all add: rx_done_status0)
      with "1.prems"(4) Nil show ?thesis by (simp add: fl fl1)
    next
      case (Cons hw rest')
      have "card {i. i < N \<and> rx_done c (rx_ring s1 i)} \<le> N" by (rule done_card_le)
      with "1.prems"(4) Cons show ?thesis by (simp add: fl fl1)
    qed
    have "\<exists>s'. e1000_recv_loop N c (tl hws) ((tail + 1) mod N) s1 = Inr s'"
      using "1.prems"(2) True d f(2) t1 nz need by (intro "1.IH") (simp_all add: not_le)
    with "1.prems"(2) True d show ?thesis
      by (subst e1000_recv_loop.simps) simp
  qed
qed

lemma e1000_recv_returns:
  assumes "\<not> e1000_lock s" and "0 < N" and "0 \<notin> set (freelist s)"
    and "length hws + N \<le> length (freelist s)"
  shows "\<exists>s'. e1000_recv N c hws s = Inr s'"
proof -
  let ?s1 = "s\<lparr>e1000_lock := True\<rparr>"
  have "card {i. i < N \<and> rx_done c (rx_ring ?s1 i)} \<le> N" by (rule done_card_le)
  with assms(4) have need:
    "(if hws = [] then card {i. i < N \<and> rx_done c (rx_ring ?s1 i)} else length hws + N)
       \<le> length (freelist ?s1)" by simp
  have "\<exists>s2. e1000_recv_loop N c hws (rx_head N s) ?s1 = Inr s2"
    using assms(2,3) need by (intro recv_loop_returns) (simp_all add: rx_head_def)
  then obtain s2 where l: "e1000_recv_loop N c hws (rx_head N s) ?s1 = Inr s2" ..
  then have "e1000_lock s2" by (rule recv_loop_lock) simp
  with l assms(1) show ?thesis
    by (simp add: e1000_recv_def acquire_def release_def rx_head_def)
qed

lemma e1000_recv_drained:
  assumes "e1000_recv N c hws s = Inr s'"
  shows "\<exists>s2 ds. drained N c hws (rx_head N s) (s\<lparr>e1000_lock := True\<rparr>) s2 ds \<and>
           e1000_recv_loop N c hws (rx_head N s) (s\<lparr>e1000_lock := True\<rparr>) = Inr s2 \<and>
           s' = s2\<lparr>e1000_lock := False\<rparr>"
proof -
  from e1000_recv_Inr [OF assms] obtain s2 where
    l: "e1000_recv_loop N c hws (rx_head N s) (s\<lparr>e1000_lock := True\<rparr>) = Inr s2" and
    s': "s' = s2\<lparr>e1000_lock := False\<rparr>" by blast
  from recv_loop_drained [OF l] l s' show ?thesis by blast
qed

lemma rx_boot4_run:
  "\<exists>s'. e1000_recv RX_RING_SIZE intel_dev [] rx_boot4 = Inr s' \<and>
     delivered s' = [Net_rx 0 0x87000000 60 False, Net_rx 1 0x87001000 61 False,
                     Net_rx 2 0x87002000 62 False, Net_rx 3 0x87003000 63 False] \<and>
     map (rx_bufs s') [0, 1, 2, 3] = [0x87100000, 0x87101000, 0x87102000, 0x87103000] \<and>
     map (\<lambda>i. rx_addr (rx_ring s' i)) [0, 1, 2, 3]
       = [0x87100000, 0x87101000, 0x87102000, 0x87103000] \<and>
     regs s' E1000_RDT = 3"
  by (simp add: e1000_recv_def e1000_recv_loop.simps recv_deliver_def acquire_def release_def
      net_rx_def device_rx_def kalloc_def rx_done_def intel_dev_def rx_boot4_def e1000_boot_def
      RX_RING_SIZE_def Let_def hw_complete_def upt_conv_Cons del: upt_Suc)

lemma rx_boot15_run:
  "\<exists>s'. e1000_recv RX_RING_SIZE intel_dev [[], [(15, 70)], [(0, 71)]] rx_boot15 = Inr s' \<and>
     length (delivered s') = 17 \<and>
     map (rx_bufs s') [0, 1] = [0x87110000, 0x87101000]"
  by (simp add: e1000_recv_def e1000_recv_loop.simps recv_deliver_def acquire_def release_def
      net_rx_def device_rx_def kalloc_def rx_done_def intel_dev_def rx_boot15_def e1000_boot_def
      RX_RING_SIZE_def Let_def hw_complete_def upt_conv_Cons del: upt_Suc)

text \<open>
  C3.  When \<^verbatim>\<open>e1000_recv\<close> returns, the deliveries it made visited the ring in index
  order from \<open>(RDT + 1) mod N\<close> (\<open>rx_head\<close>, with \<open>RDT + 1\<close> computed on 32 bits),
  wrapping modulo \<open>N\<close>, and stopped at a descriptor whose done bit is clear.  The \<open>k\<close>-th delivery hands over the buffer its slot held on
  entry; from the \<open>N\<close>-th delivery on (the second visit of a slot) it is the page that was
  installed when the slot was drained one lap earlier.  If the device completes nothing
  during the drain, the deliveries are exactly the done descriptors from the start index
  up to the first one that is not done, each with its reported length.
\<close>

theorem e1000_recv_in_order:
  assumes "e1000_recv N c hws s = Inr s'"
  shows "\<exists>ds. delivered s' = delivered s @ ds \<and>
     map rx_slot ds = map (\<lambda>k. (rx_head N s + k) mod N) [0..<length ds] \<and>
     (\<forall>k < length ds. rx_buf (ds ! k) =
        (if k < N then rx_bufs s ((rx_head N s + k) mod N) else freelist s ! (k - N))) \<and>
     \<not> rx_done c (rx_ring s' ((rx_head N s + length ds) mod N)) \<and>
     (hws = [] \<longrightarrow> length ds \<le> N \<and>
        (\<forall>k < length ds. rx_done c (rx_ring s ((rx_head N s + k) mod N)) \<and>
            rx_len (ds ! k) = uint (rx_length (rx_ring s ((rx_head N s + k) mod N)))) \<and>
        (length ds < N \<longrightarrow> \<not> rx_done c (rx_ring s ((rx_head N s + length ds) mod N))))"
proof -
  from e1000_recv_drained [OF assms] obtain s2 ds where
    d: "drained N c hws (rx_head N s) (s\<lparr>e1000_lock := True\<rparr>) s2 ds" and
    s': "s' = s2\<lparr>e1000_lock := False\<rparr>" by blast
  from d [unfolded drained_def] show ?thesis
    by (intro exI [of _ ds]) (simp add: s')
qed

theorem e1000_recv_in_order_witness:
  "(\<exists>s'. e1000_recv RX_RING_SIZE intel_dev [] rx_boot4 = Inr s' \<and>
      map rx_slot (delivered s') = [0, 1, 2, 3] \<and>
      map rx_buf (delivered s') = [0x87000000, 0x87001000, 0x87002000, 0x87003000] \<and>
      map (rx_bufs s') [0, 1, 2, 3] = [0x87100000, 0x87101000, 0x87102000, 0x87103000]) \<and>
   (\<exists>s'. e1000_recv RX_RING_SIZE intel_dev [[], [(15, 70)], [(0, 71)]] rx_boot15 = Inr s' \<and>
      map rx_slot (delivered s') = [0, 1, 2, 3, 4, 5, 6, 7, 8, 9, 10, 11, 12, 13, 14, 15, 0] \<and>
      rx_buf (delivered s' ! 0) = 0x87000000 \<and>
      rx_buf (delivered s' ! 16) = 0x87100000)"
proof -
  have h4: "rx_head RX_RING_SIZE rx_boot4 = 0"
    by (simp add: rx_head_def rx_boot4_def e1000_boot_def RX_RING_SIZE_def)
  have h15: "rx_head RX_RING_SIZE rx_boot15 = 0"
    by (simp add: rx_head_def rx_boot15_def e1000_boot_def RX_RING_SIZE_def)
  have e4: "delivered rx_boot4 = []"
    by (simp add: rx_boot4_def e1000_boot_def)
  have e15: "delivered rx_boot15 = []"
    and b15: "rx_bufs rx_boot15 0 = 0x87000000"
    and f15: "freelist rx_boot15 ! 0 = 0x87100000"
    by (simp_all add: rx_boot15_def e1000_boot_def upt_conv_Cons del: upt_Suc)
  from rx_boot4_run obtain sa where xa:
    "e1000_recv RX_RING_SIZE intel_dev [] rx_boot4 = Inr sa \<and>
     delivered sa = [Net_rx 0 0x87000000 60 False, Net_rx 1 0x87001000 61 False,
                     Net_rx 2 0x87002000 62 False, Net_rx 3 0x87003000 63 False] \<and>
     map (rx_bufs sa) [0, 1, 2, 3] = [0x87100000, 0x87101000, 0x87102000, 0x87103000] \<and>
     map (\<lambda>i. rx_addr (rx_ring sa i)) [0, 1, 2, 3]
       = [0x87100000, 0x87101000, 0x87102000, 0x87103000] \<and>
     regs sa E1000_RDT = 3" ..
  note ra = xa [THEN conjunct1]
    and va = xa [THEN conjunct2, THEN conjunct1]
    and ba = xa [THEN conjunct2, THEN conjunct2, THEN conjunct1]
  from e1000_recv_in_order [OF ra] obtain da where
    "delivered sa = delivered rx_boot4 @ da \<and>
     map rx_slot da = map (\<lambda>k. (rx_head RX_RING_SIZE rx_boot4 + k) mod RX_RING_SIZE) [0..<length da]"
    by (elim exE conjE) (rule that, rule conjI)
  note da = this [THEN conjunct1] and sa = this [THEN conjunct2]
  have da': "da = delivered sa" using da by (simp add: e4)
  have la: "length da = 4" by (simp add: da' va)
  have a1: "map rx_slot (delivered sa) = [0, 1, 2, 3]"
    using sa unfolding la h4 da' [symmetric]
    by (simp add: RX_RING_SIZE_def upt_conv_Cons del: upt_Suc)
  have a2: "map rx_buf (delivered sa) = [0x87000000, 0x87001000, 0x87002000, 0x87003000]"
    by (simp add: va)
  from rx_boot15_run obtain sb where xb:
    "e1000_recv RX_RING_SIZE intel_dev [[], [(15, 70)], [(0, 71)]] rx_boot15 = Inr sb \<and>
     length (delivered sb) = 17 \<and>
     map (rx_bufs sb) [0, 1] = [0x87110000, 0x87101000]" ..
  note rb = xb [THEN conjunct1]
    and lb = xb [THEN conjunct2, THEN conjunct1]
  from e1000_recv_in_order [OF rb] obtain db where
    "delivered sb = delivered rx_boot15 @ db \<and>
     map rx_slot db = map (\<lambda>k. (rx_head RX_RING_SIZE rx_boot15 + k) mod RX_RING_SIZE) [0..<length db] \<and>
     (\<forall>k < length db. rx_buf (db ! k) =
        (if k < RX_RING_SIZE then rx_bufs rx_boot15 ((rx_head RX_RING_SIZE rx_boot15 + k) mod RX_RING_SIZE)
         else freelist rx_boot15 ! (k - RX_RING_SIZE)))"
    by (elim exE conjE) (rule that, intro conjI)
  note db = this [THEN conjunct1]
    and sb = this [THEN conjunct2, THEN conjunct1]
    and ub = this [THEN conjunct2, THEN conjunct2]
  have db': "db = delivered sb" using db by (simp add: e15)
  have lb': "length db = 17" by (simp add: db' lb)
  have b1: "map rx_slot (delivered sb) = [0, 1, 2, 3, 4, 5, 6, 7, 8, 9, 10, 11, 12, 13, 14, 15, 0]"
    using sb unfolding lb' h15 db' [symmetric]
    by (simp add: RX_RING_SIZE_def upt_conv_Cons del: upt_Suc)
  have "(0::nat) < length db" and "(16::nat) < length db" by (simp_all add: lb')
  with ub have
    "rx_buf (db ! 0) = (if 0 < RX_RING_SIZE
         then rx_bufs rx_boot15 ((rx_head RX_RING_SIZE rx_boot15 + 0) mod RX_RING_SIZE)
         else freelist rx_boot15 ! (0 - RX_RING_SIZE))" and
    "rx_buf (db ! 16) = (if 16 < RX_RING_SIZE
         then rx_bufs rx_boot15 ((rx_head RX_RING_SIZE rx_boot15 + 16) mod RX_RING_SIZE)
         else freelist rx_boot15 ! (16 - RX_RING_SIZE))"
    by blast+
  then have b2: "rx_buf (delivered sb ! 0) = 0x87000000"
    and b3: "rx_buf (delivered sb ! 16) = 0x87100000"
    unfolding h15 db' by (simp_all add: RX_RING_SIZE_def b15 f15)
  show ?thesis
  proof (intro conjI)
    show "\<exists>s'. e1000_recv RX_RING_SIZE intel_dev [] rx_boot4 = Inr s' \<and>
      map rx_slot (delivered s') = [0, 1, 2, 3] \<and>
      map rx_buf (delivered s') = [0x87000000, 0x87001000, 0x87002000, 0x87003000] \<and>
      map (rx_bufs s') [0, 1, 2, 3] = [0x87100000, 0x87101000, 0x87102000, 0x87103000]"
      using ra a1 a2 ba by (intro exI [of _ sa] conjI)
    show "\<exists>s'. e1000_recv RX_RING_SIZE intel_dev [[], [(15, 70)], [(0, 71)]] rx_boot15 = Inr s' \<and>
      map rx_slot (delivered s') = [0, 1, 2, 3, 4, 5, 6, 7, 8, 9, 10, 11, 12, 13, 14, 15, 0] \<and>
      rx_buf (delivered s' ! 0) = 0x87000000 \<and>
      rx_buf (delivered s' ! 16) = 0x87100000"
      using rb b1 b2 b3 by (intro exI [of _ sb] conjI)
  qed
qed

text \<open>
  C7.  When \<^verbatim>\<open>e1000_recv\<close> returns, every slot it drained owns a buffer: the slot's
  entry is not null, its descriptor points at it, and it is one of the pages the
  allocator handed out during this drain.  A drain that does not return has panicked
  with \<^verbatim>\<open>panic("e1000")\<close>, which is what happens when a done descriptor is found and
  the allocator has no page left.
\<close>

theorem e1000_recv_slots_owned:
  "(e1000_recv N c hws s = Inr s' \<longrightarrow>
      (\<exists>ds. delivered s' = delivered s @ ds \<and>
         (\<forall>d \<in> set ds. rx_owned s' (rx_slot d) \<and>
            rx_bufs s' (rx_slot d) \<in> set (take (length ds) (freelist s))))) \<and>
   (\<not> e1000_lock s \<and> 0 < N \<and> e1000_recv N c hws s = Inl e \<longrightarrow> e = ''e1000'') \<and>
   (\<not> e1000_lock s \<and> 0 < N \<and> rx_done c (rx_ring s (rx_head N s)) \<and> freelist s = [] \<longrightarrow>
      e1000_recv N c hws s = Inl ''e1000'')"
proof (intro conjI impI)
  assume run: "e1000_recv N c hws s = Inr s'"
  from e1000_recv_drained [OF run] obtain s2 ds where
    d: "drained N c hws (rx_head N s) (s\<lparr>e1000_lock := True\<rparr>) s2 ds" and
    l: "e1000_recv_loop N c hws (rx_head N s) (s\<lparr>e1000_lock := True\<rparr>) = Inr s2" and
    s': "s' = s2\<lparr>e1000_lock := False\<rparr>" by blast
  note d' = d [unfolded drained_def]
  have dl: "delivered s' = delivered s @ ds" using d' by (simp add: s')
  have n: "length (delivered s2) - length (delivered (s\<lparr>e1000_lock := True\<rparr>)) = length ds"
    using d' by simp
  have "rx_owned s' (rx_slot x) \<and> rx_bufs s' (rx_slot x) \<in> set (take (length ds) (freelist s))"
    if "x \<in> set ds" for x
  proof -
    from that obtain k where k: "k < length ds" and x: "x = ds ! k"
      by (auto simp: in_set_conv_nth)
    have "map rx_slot ds ! k = map (\<lambda>k. (rx_head N s + k) mod N) [0..<length ds] ! k"
      using d' by simp
    then have slot: "rx_slot x = (rx_head N s + k) mod N"
      using k by (simp add: x)
    have "rx_owned s2 ((rx_head N s + k) mod N)" using d' k by blast
    then have o: "rx_owned s' (rx_slot x)"
      by (simp add: rx_owned_def s' slot)
    from recv_loop_visited_fresh [OF l, of k] k n
    have "rx_bufs s2 ((rx_head N s + k) mod N) \<in> set (take (length ds) (freelist s))"
      by simp
    then have "rx_bufs s' (rx_slot x) \<in> set (take (length ds) (freelist s))"
      by (simp add: s' slot)
    with o show ?thesis ..
  qed
  with dl show "\<exists>ds. delivered s' = delivered s @ ds \<and>
         (\<forall>d \<in> set ds. rx_owned s' (rx_slot d) \<and>
            rx_bufs s' (rx_slot d) \<in> set (take (length ds) (freelist s)))"
    by blast
next
  assume "\<not> e1000_lock s \<and> 0 < N \<and> e1000_recv N c hws s = Inl e"
  then have a: "\<not> e1000_lock s" "0 < N" "e1000_recv N c hws s = Inl e" by simp_all
  let ?s1 = "s\<lparr>e1000_lock := True\<rparr>"
  have h: "rx_head N s < N" using a by (simp add: rx_head_def)
  show "e = ''e1000''"
  proof (cases "e1000_recv_loop N c hws (rx_head N s) ?s1")
    case (Inl e')
    with a have "e' = e"
      by (simp add: e1000_recv_def acquire_def rx_head_def)
    with Inl h show ?thesis by (auto dest: recv_loop_Inl)
  next
    case (Inr s2)
    then have "e1000_lock s2" by (rule recv_loop_lock) simp
    with Inr a show ?thesis
      by (simp add: e1000_recv_def acquire_def release_def rx_head_def)
  qed
next
  assume "\<not> e1000_lock s \<and> 0 < N \<and> rx_done c (rx_ring s (rx_head N s)) \<and> freelist s = []"
  then have a: "\<not> e1000_lock s" "0 < N" "rx_done c (rx_ring s (rx_head N s))" "freelist s = []"
    by simp_all
  let ?s1 = "s\<lparr>e1000_lock := True\<rparr>"
  have h: "rx_head N s < N" using a by (simp add: rx_head_def)
  have "recv_deliver c hw (rx_head N s) ?s1 = Inl ''e1000''" for hw
    using a by (intro recv_deliver_no_page) simp_all
  then have "e1000_recv_loop N c hws (rx_head N s) ?s1 = Inl ''e1000''"
    using a h by (subst e1000_recv_loop.simps) (simp add: not_le)
  then show "e1000_recv N c hws s = Inl ''e1000''"
    using a by (simp add: e1000_recv_def acquire_def rx_head_def)
qed


theorem e1000_recv_slots_owned_witness:
  "(\<exists>s'. e1000_recv RX_RING_SIZE intel_dev [] rx_boot4 = Inr s' \<and>
      rx_owned s' 0 \<and> rx_owned s' 1 \<and> rx_owned s' 2 \<and> rx_owned s' 3 \<and>
      map (rx_bufs s') [0, 1, 2, 3] = [0x87100000, 0x87101000, 0x87102000, 0x87103000]) \<and>
   e1000_recv RX_RING_SIZE intel_dev [] (rx_boot4\<lparr>freelist := []\<rparr>) = Inl ''e1000''"
proof -
  from rx_boot4_run obtain sa where xa:
    "e1000_recv RX_RING_SIZE intel_dev [] rx_boot4 = Inr sa \<and>
     delivered sa = [Net_rx 0 0x87000000 60 False, Net_rx 1 0x87001000 61 False,
                     Net_rx 2 0x87002000 62 False, Net_rx 3 0x87003000 63 False] \<and>
     map (rx_bufs sa) [0, 1, 2, 3] = [0x87100000, 0x87101000, 0x87102000, 0x87103000] \<and>
     map (\<lambda>i. rx_addr (rx_ring sa i)) [0, 1, 2, 3]
       = [0x87100000, 0x87101000, 0x87102000, 0x87103000] \<and>
     regs sa E1000_RDT = 3" ..
  note ra = xa [THEN conjunct1]
    and va = xa [THEN conjunct2, THEN conjunct1]
    and ba = xa [THEN conjunct2, THEN conjunct2, THEN conjunct1]
  have e4: "delivered rx_boot4 = []"
    by (simp add: rx_boot4_def e1000_boot_def)
  note th = e1000_recv_slots_owned [of RX_RING_SIZE intel_dev "[]" rx_boot4 sa]
  from th [THEN conjunct1, THEN mp, OF ra] obtain ds where
    "delivered sa = delivered rx_boot4 @ ds \<and>
     (\<forall>d \<in> set ds. rx_owned sa (rx_slot d) \<and>
            rx_bufs sa (rx_slot d) \<in> set (take (length ds) (freelist rx_boot4)))" ..
  note ds = this [THEN conjunct1] and ow = this [THEN conjunct2]
  have ds': "ds = [Net_rx 0 0x87000000 60 False, Net_rx 1 0x87001000 61 False,
                     Net_rx 2 0x87002000 62 False, Net_rx 3 0x87003000 63 False]"
    using ds by (simp add: e4 va)
  have o: "rx_owned sa 0 \<and> rx_owned sa 1 \<and> rx_owned sa 2 \<and> rx_owned sa 3"
    using ow unfolding ds' by simp
  let ?s0 = "rx_boot4\<lparr>freelist := []\<rparr>"
  have pre: "\<not> e1000_lock ?s0 \<and> 0 < RX_RING_SIZE \<and>
      rx_done intel_dev (rx_ring ?s0 (rx_head RX_RING_SIZE ?s0)) \<and> freelist ?s0 = []"
    by (simp add: rx_boot4_def e1000_boot_def RX_RING_SIZE_def rx_head_def rx_done_def
        intel_dev_def)
  have p: "e1000_recv RX_RING_SIZE intel_dev [] ?s0 = Inl ''e1000''"
    using e1000_recv_slots_owned [of RX_RING_SIZE intel_dev "[]" ?s0, THEN conjunct2,
        THEN conjunct2, THEN mp, OF pre] .
  show ?thesis
  proof (intro conjI)
    show "\<exists>s'. e1000_recv RX_RING_SIZE intel_dev [] rx_boot4 = Inr s' \<and>
      rx_owned s' 0 \<and> rx_owned s' 1 \<and> rx_owned s' 2 \<and> rx_owned s' 3 \<and>
      map (rx_bufs s') [0, 1, 2, 3] = [0x87100000, 0x87101000, 0x87102000, 0x87103000]"
      using ra o ba by (intro exI [of _ sa]) simp
    show "e1000_recv RX_RING_SIZE intel_dev [] ?s0 = Inl ''e1000''" by (rule p)
  qed
qed

lemma recv_deliver_pages:
  "recv_deliver c hw t s = Inr s' \<Longrightarrow>
   page_calls s' = page_calls s @ [Page_alloc (rx_bufs s' t) True]"
  by (auto simp: recv_deliver_def release_def acquire_def net_rx_def device_rx_def Let_def
      split: if_splits prod.splits)

lemma recv_loop_pages:
  assumes "e1000_recv_loop N c hws t s = Inr s'"
  shows "\<exists>ps. page_calls s' = page_calls s @ ps \<and> (\<forall>p \<in> set ps. page_locked p) \<and>
           length (delivered s) + length ps = length (delivered s')"
  using assms
proof (induction hws t s rule: recv_loop_induct)
  case (stop hws t)
  then show ?case by simp
next
  case (step hws t s s1)
  from step.IH obtain ps1 where
    p1: "page_calls s' = page_calls s1 @ ps1" and l1: "\<forall>p \<in> set ps1. page_locked p" and
    n1: "length (delivered s1) + length ps1 = length (delivered s')" by blast
  let ?ps = "Page_alloc (rx_bufs s1 t) True # ps1"
  have "page_calls s' = page_calls s @ ?ps"
    using p1 recv_deliver_pages [OF step(3)] by simp
  moreover have "\<forall>p \<in> set ?ps. page_locked p" using l1 by simp
  moreover have "length (delivered s) + length ?ps = length (delivered s')"
    using n1 recv_deliver_Inr(3) [OF step(3)] by simp
  ultimately show ?case by blast
qed

text \<open>
  C8 (as amended).  Every call of \<^verbatim>\<open>net_rx\<close> made by \<^verbatim>\<open>e1000_recv\<close> happens while
  \<^verbatim>\<open>e1000_lock\<close> is not held, and the lock is free again when the function returns.
  One round of the loop starts with the lock held, releases it, makes the call, and
  holds the lock again when the round ends.  The page allocator, on the other hand, is
  called once per delivery with the lock held.
\<close>

theorem e1000_recv_unlocked_delivery:
  "(e1000_recv N c hws s = Inr s' \<longrightarrow>
      (\<exists>ds ps. delivered s' = delivered s @ ds \<and> (\<forall>d \<in> set ds. \<not> rx_locked d) \<and>
         page_calls s' = page_calls s @ ps \<and> length ps = length ds \<and>
         (\<forall>p \<in> set ps. page_locked p)) \<and>
      \<not> e1000_lock s') \<and>
   (recv_deliver c hw t u = Inr u' \<longrightarrow>
      e1000_lock u \<and> e1000_lock u' \<and>
      delivered u' = delivered u @
        [Net_rx t (rx_bufs u t) (uint (rx_length (rx_ring u t))) False] \<and>
      page_calls u' = page_calls u @ [Page_alloc (rx_bufs u' t) True])"
proof (intro conjI impI)
  assume run: "e1000_recv N c hws s = Inr s'"
  from e1000_recv_drained [OF run] obtain s2 ds where
    d: "drained N c hws (rx_head N s) (s\<lparr>e1000_lock := True\<rparr>) s2 ds" and
    l: "e1000_recv_loop N c hws (rx_head N s) (s\<lparr>e1000_lock := True\<rparr>) = Inr s2" and
    s': "s' = s2\<lparr>e1000_lock := False\<rparr>" by blast
  note d' = d [unfolded drained_def]
  from recv_loop_pages [OF l] obtain ps where
    p: "page_calls s2 = page_calls s @ ps" and pl: "\<forall>p \<in> set ps. page_locked p" and
    n: "length (delivered s) + length ps = length (delivered s2)" by auto
  have dl: "delivered s' = delivered s @ ds" and ul: "\<forall>d \<in> set ds. \<not> rx_locked d"
    using d' by (simp_all add: s')
  have "length ps = length ds" using n d' by simp
  with dl ul p pl
  show "\<exists>ds ps. delivered s' = delivered s @ ds \<and> (\<forall>d \<in> set ds. \<not> rx_locked d) \<and>
         page_calls s' = page_calls s @ ps \<and> length ps = length ds \<and>
         (\<forall>p \<in> set ps. page_locked p)"
    by (intro exI [of _ ds] exI [of _ ps]) (simp add: s')
  show "\<not> e1000_lock s'" by (simp add: s')
next
  assume b: "recv_deliver c hw t u = Inr u'"
  show "e1000_lock u" by (rule recv_deliver_Inr(1) [OF b])
  show "e1000_lock u'" by (rule recv_deliver_Inr(2) [OF b])
  show "delivered u' = delivered u @
        [Net_rx t (rx_bufs u t) (uint (rx_length (rx_ring u t))) False]"
    by (rule recv_deliver_Inr(3) [OF b])
  show "page_calls u' = page_calls u @ [Page_alloc (rx_bufs u' t) True]"
    by (rule recv_deliver_pages [OF b])
qed

lemma rx_boot4_deliver:
  "\<exists>s2. recv_deliver intel_dev [] 0 (rx_boot4\<lparr>e1000_lock := True\<rparr>) = Inr s2 \<and>
      rx_bufs s2 0 = 0x87100000"
  by (simp add: recv_deliver_def acquire_def release_def net_rx_def device_rx_def kalloc_def
      rx_boot4_def e1000_boot_def Let_def upt_conv_Cons del: upt_Suc)

theorem e1000_recv_unlocked_delivery_witness:
  "(\<exists>s'. e1000_recv RX_RING_SIZE intel_dev [] rx_boot4 = Inr s' \<and>
      map rx_locked (delivered s') = [False, False, False, False] \<and>
      map page_locked (page_calls s') = [True, True, True, True] \<and> \<not> e1000_lock s') \<and>
   (\<exists>s2. recv_deliver intel_dev [] 0 (rx_boot4\<lparr>e1000_lock := True\<rparr>) = Inr s2 \<and>
      e1000_lock s2 \<and> delivered s2 = [Net_rx 0 0x87000000 60 False] \<and>
      page_calls s2 = [Page_alloc 0x87100000 True])"
proof -
  from rx_boot4_run obtain sa where xa:
    "e1000_recv RX_RING_SIZE intel_dev [] rx_boot4 = Inr sa \<and>
     delivered sa = [Net_rx 0 0x87000000 60 False, Net_rx 1 0x87001000 61 False,
                     Net_rx 2 0x87002000 62 False, Net_rx 3 0x87003000 63 False] \<and>
     map (rx_bufs sa) [0, 1, 2, 3] = [0x87100000, 0x87101000, 0x87102000, 0x87103000] \<and>
     map (\<lambda>i. rx_addr (rx_ring sa i)) [0, 1, 2, 3]
       = [0x87100000, 0x87101000, 0x87102000, 0x87103000] \<and>
     regs sa E1000_RDT = 3" ..
  note ra = xa [THEN conjunct1]
    and va = xa [THEN conjunct2, THEN conjunct1]
  have e4: "delivered rx_boot4 = []" "page_calls rx_boot4 = []"
    by (simp_all add: rx_boot4_def e1000_boot_def)
  note th = e1000_recv_unlocked_delivery [where N = RX_RING_SIZE and c = intel_dev
        and hws = "[]" and s = rx_boot4 and s' = sa]
  note r1 = th [THEN conjunct1, THEN mp, OF ra]
  from r1 [THEN conjunct1] obtain ds ps where x:
    "delivered sa = delivered rx_boot4 @ ds \<and> (\<forall>d \<in> set ds. \<not> rx_locked d) \<and>
     page_calls sa = page_calls rx_boot4 @ ps \<and> length ps = length ds \<and>
     (\<forall>p \<in> set ps. page_locked p)"
    by (elim exE) (rule that)
  note ds = x [THEN conjunct1] and ul = x [THEN conjunct2, THEN conjunct1]
    and ps = x [THEN conjunct2, THEN conjunct2, THEN conjunct1]
    and lp = x [THEN conjunct2, THEN conjunct2, THEN conjunct2, THEN conjunct1]
    and pl = x [THEN conjunct2, THEN conjunct2, THEN conjunct2, THEN conjunct2]
  have ds': "ds = [Net_rx 0 0x87000000 60 False, Net_rx 1 0x87001000 61 False,
                     Net_rx 2 0x87002000 62 False, Net_rx 3 0x87003000 63 False]"
    using ds by (simp add: e4 va)
  have "map rx_locked ds = [False, False, False, False]"
    unfolding ds' by simp
  then have a1: "map rx_locked (delivered sa) = [False, False, False, False]"
    using ds by (simp add: e4)
  have "length ps = 4" using lp by (simp add: ds')
  then have "map page_locked ps = [True, True, True, True]"
    using pl by (auto simp: length_Suc_conv numeral_eq_Suc)
  then have a3: "map page_locked (page_calls sa) = [True, True, True, True]"
    using ps by (simp add: e4)
  have a2: "\<not> e1000_lock sa" by (rule r1 [THEN conjunct2])
  let ?s1 = "rx_boot4\<lparr>e1000_lock := True\<rparr>"
  from rx_boot4_deliver obtain s2 where y:
    "recv_deliver intel_dev [] 0 ?s1 = Inr s2 \<and> rx_bufs s2 0 = 0x87100000" ..
  note rd = y [THEN conjunct1] and b0 = y [THEN conjunct2]
  note r2 = e1000_recv_unlocked_delivery [where c = intel_dev and hw = "[]" and t = 0
        and u = ?s1 and u' = s2, THEN conjunct2, THEN mp, OF rd]
  have b1: "e1000_lock s2" by (rule r2 [THEN conjunct2, THEN conjunct1])
  have b2: "delivered s2 = [Net_rx 0 0x87000000 60 False]"
    using r2 [THEN conjunct2, THEN conjunct2, THEN conjunct1]
    by (simp add: rx_boot4_def e1000_boot_def)
  have b3: "page_calls s2 = [Page_alloc 0x87100000 True]"
    using r2 [THEN conjunct2, THEN conjunct2, THEN conjunct2] b0
    by (simp add: rx_boot4_def e1000_boot_def)
  show ?thesis
  proof (intro conjI)
    show "\<exists>s'. e1000_recv RX_RING_SIZE intel_dev [] rx_boot4 = Inr s' \<and>
      map rx_locked (delivered s') = [False, False, False, False] \<and>
      map page_locked (page_calls s') = [True, True, True, True] \<and> \<not> e1000_lock s'"
      using ra a1 a3 a2 by (intro exI [of _ sa] conjI)
    show "\<exists>s2. recv_deliver intel_dev [] 0 ?s1 = Inr s2 \<and>
      e1000_lock s2 \<and> delivered s2 = [Net_rx 0 0x87000000 60 False] \<and>
      page_calls s2 = [Page_alloc 0x87100000 True]"
      using rd b1 b2 b3 by (intro exI [of _ s2] conjI)
  qed
qed

text \<open>
  The drain of the four completed descriptors calls \<^verbatim>\<open>kalloc()\<close> four times, each time
  with \<^verbatim>\<open>e1000_lock\<close> held.
\<close>

theorem e1000_recv_kalloc_under_lock:
  "\<not> isl (e1000_recv RX_RING_SIZE intel_dev [] rx_boot4) \<and>
   page_calls (projr (e1000_recv RX_RING_SIZE intel_dev [] rx_boot4))
     = [Page_alloc 0x87100000 True, Page_alloc 0x87101000 True,
        Page_alloc 0x87102000 True, Page_alloc 0x87103000 True]"
  by (simp add: e1000_recv_def e1000_recv_loop.simps recv_deliver_def acquire_def release_def
      net_rx_def device_rx_def kalloc_def rx_done_def intel_dev_def rx_boot4_def e1000_boot_def
      RX_RING_SIZE_def Let_def hw_complete_def upt_conv_Cons del: upt_Suc)

section \<open>Traps: results\<close>

lemma devintr_exception:
  "scause s \<noteq> 0x8000000000000009 \<Longrightarrow> scause s \<noteq> 0x8000000000000005 \<Longrightarrow>
   devintr h e s = (0, s)"
  by (simp add: devintr_def)

text \<open>
  C9.  On a system-call trap from user mode, a process that is already marked killed is
  terminated at once: the handler ends with \<^verbatim>\<open>exit(-1)\<close>, whatever \<^verbatim>\<open>syscall()\<close> would
  have done, and nothing has been logged, neither \<^verbatim>\<open>syscall()\<close> nor any other external
  call.  Otherwise \<^verbatim>\<open>syscall()\<close> runs on a state whose saved program counter is already
  \<^verbatim>\<open>sepc + 4\<close>, with interrupts enabled.
\<close>

theorem usertrap_syscall_killed:
  assumes "sstatus s AND SSTATUS_SPP h = 0" and "scause s = 8"
  shows "(killed s \<longrightarrow>
            usertrap h e s = (Exit (- 1), s\<lparr>stvec := Kernelvec, tf_epc := sepc s\<rparr>) \<and>
            klog (snd (usertrap h e s)) = klog s) \<and>
         (\<not> killed s \<longrightarrow>
            usertrap h e s =
              usertrap_end h e 0
                (syscall e (s\<lparr>stvec := Kernelvec, tf_epc := sepc s + 4,
                              sstatus := sstatus s OR SSTATUS_SIE h,
                              klog := klog s @ [Syscall_call]\<rparr>)))"
  using assms
  by (simp add: usertrap_def killed_def intr_on_def call_def Let_def)

theorem usertrap_syscall_killed_witness:
  "usertrap xv6_consts sample_env (user_state\<lparr>p_killed := True\<rparr>)
     = (Exit (- 1), user_state\<lparr>p_killed := True, stvec := Kernelvec, tf_epc := 0x1000\<rparr>) \<and>
   fst (usertrap xv6_consts sample_env user_state) = Return_to_user \<and>
   tf_epc (snd (usertrap xv6_consts sample_env user_state)) = 0x1004 \<and>
   klog (snd (usertrap xv6_consts sample_env user_state)) = [Syscall_call]"
proof -
  have a: "sstatus (user_state\<lparr>p_killed := True\<rparr>) AND SSTATUS_SPP xv6_consts = 0"
    "scause (user_state\<lparr>p_killed := True\<rparr>) = 8"
    "sstatus user_state AND SSTATUS_SPP xv6_consts = 0" "scause user_state = 8"
    by (simp_all add: user_state_def xv6_consts_def)
  have k: "killed (user_state\<lparr>p_killed := True\<rparr>)" "\<not> killed user_state"
    by (simp_all add: killed_def user_state_def)
  from usertrap_syscall_killed [OF a(1,2), of sample_env] k(1)
  have 1: "usertrap xv6_consts sample_env (user_state\<lparr>p_killed := True\<rparr>)
     = (Exit (- 1), user_state\<lparr>p_killed := True, stvec := Kernelvec, tf_epc := 0x1000\<rparr>)"
    by (simp add: user_state_def)
  from usertrap_syscall_killed [OF a(3,4), of sample_env] k(2)
  have 2: "usertrap xv6_consts sample_env user_state =
      usertrap_end xv6_consts sample_env 0
                (syscall sample_env (user_state\<lparr>stvec := Kernelvec, tf_epc := sepc user_state + 4,
                              sstatus := sstatus user_state OR SSTATUS_SIE xv6_consts,
                              klog := klog user_state @ [Syscall_call]\<rparr>))"
    by simp
  show ?thesis
    unfolding 2 using 1
    by (simp add: usertrap_end_def usertrapret_def intr_off_def killed_def sample_env_def
        user_state_def xv6_consts_def Let_def)
qed

text \<open>
  C4 (as amended).  A trap that \<^verbatim>\<open>kerneltrap\<close> accepts (previous mode supervisor,
  interrupts disabled, a device or timer interrupt) returns with \<^verbatim>\<open>sepc\<close> and
  \<^verbatim>\<open>sstatus\<close> holding the values they had on entry, whatever \<^verbatim>\<open>yield()\<close> did to them.
\<close>

theorem kerneltrap_restores_sepc_sstatus:
  assumes "sstatus s AND SSTATUS_SPP h \<noteq> 0" and "\<not> intr_get h s"
    and "scause s = 0x8000000000000009 \<or> scause s = 0x8000000000000005"
  shows "\<exists>s'. kerneltrap h e s = Inr s' \<and> sepc s' = sepc s \<and> sstatus s' = sstatus s"
  using assms
  by (auto simp: kerneltrap_def devintr_def Let_def split: prod.splits)

theorem kerneltrap_restores_sepc_sstatus_witness:
  "\<not> isl (kerneltrap xv6_consts sample_env ktimer_state) \<and>
   sepc (projr (kerneltrap xv6_consts sample_env ktimer_state)) = 0x80001234 \<and>
   sstatus (projr (kerneltrap xv6_consts sample_env ktimer_state)) = 0x100 \<and>
   klog (projr (kerneltrap xv6_consts sample_env ktimer_state)) = [Wakeup_ticks, Yield_call]"
proof -
  have a: "sstatus ktimer_state AND SSTATUS_SPP xv6_consts \<noteq> 0"
    "\<not> intr_get xv6_consts ktimer_state"
    "scause ktimer_state = 0x8000000000000009 \<or> scause ktimer_state = 0x8000000000000005"
    by (simp_all add: ktimer_state_def user_state_def xv6_consts_def intr_get_def)
  from kerneltrap_restores_sepc_sstatus [OF a, of sample_env] obtain s' where
    "kerneltrap xv6_consts sample_env ktimer_state = Inr s' \<and>
     sepc s' = sepc ktimer_state \<and> sstatus s' = sstatus ktimer_state" ..
  note r = this [THEN conjunct1] and p = this [THEN conjunct2]
  have l: "klog (projr (kerneltrap xv6_consts sample_env ktimer_state)) = [Wakeup_ticks, Yield_call]"
    by (simp add: kerneltrap_def devintr_def clockintr_def call_def Let_def intr_get_def
        ktimer_state_def user_state_def xv6_consts_def sample_env_def)
  show ?thesis
    using p l unfolding r by (simp add: ktimer_state_def user_state_def)
qed

theorem kerneltrap_scause_not_restored:
  "\<not> isl (kerneltrap xv6_consts sample_env ktimer_state) \<and>
   scause ktimer_state = 0x8000000000000005 \<and>
   scause (projr (kerneltrap xv6_consts sample_env ktimer_state)) = 8"
  by (simp add: kerneltrap_def devintr_def clockintr_def call_def Let_def intr_get_def
      ktimer_state_def user_state_def xv6_consts_def sample_env_def)

text \<open>
  C1.  With the network card as the claimed source (interrupt 33), \<^verbatim>\<open>devintr\<close> claims
  the interrupt, prints \<^verbatim>\<open>unexpected interrupt irq=33\<close> and completes it: no device
  handler runs in between.
\<close>

theorem devintr_network_irq_unexpected:
  "devintr xv6_consts sample_env (user_state\<lparr>scause := 0x8000000000000009\<rparr>)
     = (1, user_state\<lparr>scause := 0x8000000000000009,
                      klog := [Plic_claim 33, Printf_unexpected_irq 33, Plic_complete 33]\<rparr>)"
  by (simp add: devintr_def call_def Let_def user_state_def xv6_consts_def sample_env_def)

lemma vma_scan_none:
  "(\<forall>v \<in> set vs. vma_valid v = 0 \<or> \<not> vma_contains v va) \<Longrightarrow>
   vma_scan h e vs va s = (False, s)"
  by (induction vs) auto

lemma vma_scan_first:
  "i < length vs \<Longrightarrow> vma_valid (vs ! i) \<noteq> 0 \<Longrightarrow> vma_contains (vs ! i) va \<Longrightarrow>
   (\<forall>j < i. vma_valid (vs ! j) = 0 \<or> \<not> vma_contains (vs ! j) va) \<Longrightarrow>
   vma_scan h e vs va s = vma_fault h e (vs ! i) va s"
proof (induction vs arbitrary: i)
  case Nil
  then show ?case by simp
next
  case (Cons v vs)
  show ?case
  proof (cases i)
    case 0
    with Cons.prems show ?thesis by simp
  next
    case (Suc k)
    from Cons.prems(4) Suc have skip: "vma_valid v = 0 \<or> \<not> vma_contains v va"
      by (metis nth_Cons_0 zero_less_Suc)
    have rest: "\<forall>j < k. vma_valid (vs ! j) = 0 \<or> \<not> vma_contains (vs ! j) va"
    proof (intro allI impI)
      fix j assume "j < k"
      then have "Suc j < i" using Suc by simp
      with Cons.prems(4) show "vma_valid (vs ! j) = 0 \<or> \<not> vma_contains (vs ! j) va"
        by (metis nth_Cons_Suc)
    qed
    have "vma_scan h e vs va s = vma_fault h e (vs ! k) va s"
      using Cons.prems(1-3) Suc by (intro Cons.IH rest) simp_all
    with skip Suc show ?thesis by auto
  qed
qed

lemma vma_disjoint_first:
  assumes "vma_disjoint vs" "i < length vs" "vma_valid (vs ! i) \<noteq> 0" "vma_contains (vs ! i) va"
  shows "\<forall>j < i. vma_valid (vs ! j) = 0 \<or> \<not> vma_contains (vs ! j) va"
proof (intro allI impI)
  fix j assume j: "j < i"
  show "vma_valid (vs ! j) = 0 \<or> \<not> vma_contains (vs ! j) va"
  proof (rule ccontr)
    assume "\<not> (vma_valid (vs ! j) = 0 \<or> \<not> vma_contains (vs ! j) va)"
    then have v: "vma_valid (vs ! j) \<noteq> 0" and c: "vma_contains (vs ! j) va" by simp_all
    have "j < length vs" "i \<noteq> j" using j assms(2) by simp_all
    with assms(1,2,3) v have "\<not> (vma_contains (vs ! i) va \<and> vma_contains (vs ! j) va)"
      unfolding vma_disjoint_def by blast
    with c assms(4) show False by simp
  qed
qed

lemma vma_scan_disjoint:
  assumes "vma_disjoint vs" "i < length vs" "vma_valid (vs ! i) \<noteq> 0" "vma_contains (vs ! i) va"
  shows "vma_scan h e vs va s = vma_fault h e (vs ! i) va s"
  using assms(2-4) vma_disjoint_first [OF assms] by (rule vma_scan_first)

lemma usertrap_pagefault:
  assumes "sstatus s AND SSTATUS_SPP h = 0"
    and "scause s = 0xd \<or> scause s = 0xf \<or> scause s = 0xc"
  shows "usertrap h e s =
           usertrap_end h e 0 (pagefault h e (s\<lparr>stvec := Kernelvec, tf_epc := sepc s\<rparr>))"
  using assms by (auto simp: usertrap_def devintr_def Let_def)

text \<open>
  C5.  A page fault (load, store or instruction) from user mode at an address inside a
  valid VMA whose protection mask excludes that kind of access ends in \<^verbatim>\<open>exit(-1)\<close>;
  all that happened is diagnostics and \<^verbatim>\<open>setkilled\<close>: no page was taken from the
  allocator and none was mapped.  The same holds, with one diagnostic instead of two,
  when no valid VMA contains the address.
\<close>

theorem usertrap_fault_denied:
  assumes "sstatus s AND SSTATUS_SPP h = 0"
    and "scause s = 0xd \<or> scause s = 0xf \<or> scause s = 0xc"
  shows "(vma_disjoint (p_vma s) \<and> i < length (p_vma s) \<and> vma_valid (p_vma s ! i) \<noteq> 0 \<and>
          vma_contains (p_vma s ! i) (stval s) \<and> prot_denied h (scause s) (p_vma s ! i) \<longrightarrow>
            usertrap h e s =
              (Exit (- 1), unexpected (unexpected (s\<lparr>stvec := Kernelvec, tf_epc := sepc s\<rparr>))) \<and>
            pagetable (snd (usertrap h e s)) = pagetable s \<and>
            kfreelist (snd (usertrap h e s)) = kfreelist s \<and>
            klog (snd (usertrap h e s)) = klog s @
              [Printf_unexpected_scause (scause s) (p_pid s), Printf_sepc_stval (sepc s) (stval s),
               Printf_unexpected_scause (scause s) (p_pid s), Printf_sepc_stval (sepc s) (stval s)]) \<and>
         ((\<forall>v \<in> set (p_vma s). vma_valid v = 0 \<or> \<not> vma_contains v (stval s)) \<longrightarrow>
            usertrap h e s =
              (Exit (- 1), unexpected (s\<lparr>stvec := Kernelvec, tf_epc := sepc s\<rparr>)) \<and>
            pagetable (snd (usertrap h e s)) = pagetable s \<and>
            kfreelist (snd (usertrap h e s)) = kfreelist s \<and>
            klog (snd (usertrap h e s)) = klog s @
              [Printf_unexpected_scause (scause s) (p_pid s), Printf_sepc_stval (sepc s) (stval s)])"
proof (intro conjI impI)
  let ?s1 = "s\<lparr>stvec := Kernelvec, tf_epc := sepc s\<rparr>"
  assume "vma_disjoint (p_vma s) \<and> i < length (p_vma s) \<and> vma_valid (p_vma s ! i) \<noteq> 0 \<and>
          vma_contains (p_vma s ! i) (stval s) \<and> prot_denied h (scause s) (p_vma s ! i)"
  then have d: "vma_disjoint (p_vma s)" "i < length (p_vma s)" "vma_valid (p_vma s ! i) \<noteq> 0"
    "vma_contains (p_vma s ! i) (stval s)" and den: "prot_denied h (scause s) (p_vma s ! i)"
    by simp_all
  have "vma_scan h e (p_vma s) (stval s) ?s1 = vma_fault h e (p_vma s ! i) (stval s) ?s1"
    using d by (rule vma_scan_disjoint)
  also have "\<dots> = (False, unexpected ?s1)"
    using den by (simp add: vma_fault_def)
  finally have "pagefault h e ?s1 = unexpected (unexpected ?s1)"
    by (simp add: pagefault_def)
  then show r: "usertrap h e s = (Exit (- 1), unexpected (unexpected ?s1))"
    by (simp add: usertrap_pagefault [OF assms] usertrap_end_def killed_def unexpected_def
        setkilled_def call_def)
  show "pagetable (snd (usertrap h e s)) = pagetable s"
    and "kfreelist (snd (usertrap h e s)) = kfreelist s"
    and "klog (snd (usertrap h e s)) = klog s @
              [Printf_unexpected_scause (scause s) (p_pid s), Printf_sepc_stval (sepc s) (stval s),
               Printf_unexpected_scause (scause s) (p_pid s), Printf_sepc_stval (sepc s) (stval s)]"
    unfolding r by (simp_all add: unexpected_def setkilled_def call_def)
next
  let ?s1 = "s\<lparr>stvec := Kernelvec, tf_epc := sepc s\<rparr>"
  assume n: "\<forall>v \<in> set (p_vma s). vma_valid v = 0 \<or> \<not> vma_contains v (stval s)"
  have "vma_scan h e (p_vma s) (stval s) ?s1 = (False, ?s1)"
    using n by (rule vma_scan_none)
  then have "pagefault h e ?s1 = unexpected ?s1"
    by (simp add: pagefault_def)
  then show r: "usertrap h e s = (Exit (- 1), unexpected ?s1)"
    by (simp add: usertrap_pagefault [OF assms] usertrap_end_def killed_def unexpected_def
        setkilled_def call_def)
  show "pagetable (snd (usertrap h e s)) = pagetable s"
    and "kfreelist (snd (usertrap h e s)) = kfreelist s"
    and "klog (snd (usertrap h e s)) = klog s @
              [Printf_unexpected_scause (scause s) (p_pid s), Printf_sepc_stval (sepc s) (stval s)]"
    unfolding r by (simp_all add: unexpected_def setkilled_def call_def)
qed

lemma proc_vmas_disjoint: "vma_disjoint proc_vmas"
proof -
  have "\<not> (vma_contains (proc_vmas ! Suc 0) a \<and> vma_contains (proc_vmas ! Suc (Suc 0)) a)" for a
    by (auto simp: proc_vmas_def vma_contains_def word_le_nat_alt word_less_nat_alt)
  moreover have "vma_valid (proc_vmas ! 0) = 0" by (simp add: proc_vmas_def)
  moreover have "length proc_vmas = 3" by (simp add: proc_vmas_def)
  ultimately show ?thesis
    unfolding vma_disjoint_def
    by (auto simp: less_Suc_eq numeral_3_eq_3)
qed

theorem usertrap_fault_denied_witness:
  "fst (usertrap xv6_consts sample_env (user_state\<lparr>scause := 0xf, stval := 0x50000010\<rparr>))
     = Exit (- 1) \<and>
   pagetable (snd (usertrap xv6_consts sample_env
     (user_state\<lparr>scause := 0xf, stval := 0x50000010\<rparr>))) = [] \<and>
   kfreelist (snd (usertrap xv6_consts sample_env
     (user_state\<lparr>scause := 0xf, stval := 0x50000010\<rparr>))) = [0x87200000, 0x87201000] \<and>
   fst (usertrap xv6_consts sample_env (user_state\<lparr>scause := 0xd, stval := 0x60000000\<rparr>))
     = Exit (- 1) \<and>
   pagetable (snd (usertrap xv6_consts sample_env
     (user_state\<lparr>scause := 0xd, stval := 0x60000000\<rparr>))) = []"
proof -
  let ?a = "user_state\<lparr>scause := 0xf, stval := 0x50000010\<rparr>"
  let ?b = "user_state\<lparr>scause := 0xd, stval := 0x60000000\<rparr>"
  have a: "sstatus ?a AND SSTATUS_SPP xv6_consts = 0"
    "scause ?a = 0xd \<or> scause ?a = 0xf \<or> scause ?a = 0xc"
    by (simp_all add: user_state_def xv6_consts_def)
  have va: "p_vma ?a = proc_vmas" "pagetable ?a = []" "kfreelist ?a = [0x87200000, 0x87201000]"
    by (simp_all add: user_state_def)
  have pa: "vma_disjoint (p_vma ?a) \<and> 2 < length (p_vma ?a) \<and> vma_valid (p_vma ?a ! 2) \<noteq> 0 \<and>
          vma_contains (p_vma ?a ! 2) (stval ?a) \<and> prot_denied xv6_consts (scause ?a) (p_vma ?a ! 2)"
    unfolding va using proc_vmas_disjoint
    by (simp add: proc_vmas_def user_state_def vma_contains_def prot_denied_def xv6_consts_def)
  note ra = usertrap_fault_denied [OF a, of 2 sample_env, THEN conjunct1, THEN mp, OF pa]
  have b: "sstatus ?b AND SSTATUS_SPP xv6_consts = 0"
    "scause ?b = 0xd \<or> scause ?b = 0xf \<or> scause ?b = 0xc"
    by (simp_all add: user_state_def xv6_consts_def)
  have vb: "p_vma ?b = proc_vmas" "pagetable ?b = []"
    by (simp_all add: user_state_def)
  have pb: "\<forall>v \<in> set (p_vma ?b). vma_valid v = 0 \<or> \<not> vma_contains v (stval ?b)"
    unfolding vb by (simp add: proc_vmas_def user_state_def vma_contains_def)
  note rb = usertrap_fault_denied [OF b, of 0 sample_env, THEN conjunct2, THEN mp, OF pb]
  show ?thesis
    using ra [THEN conjunct1] ra [THEN conjunct2, THEN conjunct1]
      ra [THEN conjunct2, THEN conjunct2, THEN conjunct1]
      rb [THEN conjunct1] rb [THEN conjunct2, THEN conjunct1]
    by (simp add: va vb)
qed

text \<open>
  C6.  A page fault inside a valid file-backed VMA that permits the access, with a page
  available, the read not failing and the mapping succeeding: the page taken from the
  allocator is zeroed, \<^verbatim>\<open>readi\<close> is asked for \<^verbatim>\<open>PGSIZE\<close> bytes at offset
  \<^verbatim>\<open>PGROUNDDOWN(va) - vma->addr + vma->offset\<close> inside the begin/end-transaction
  bracket and delivers \<open>min PGSIZE (file size - offset)\<close> bytes, and the page, mapped
  at \<^verbatim>\<open>PGROUNDDOWN(va)\<close>, holds those bytes followed by zeros.
\<close>

theorem usertrap_fault_file_backed:
  assumes "sstatus s AND SSTATUS_SPP h = 0"
    and "scause s = 0xd \<or> scause s = 0xf \<or> scause s = 0xc"
    and "vma_disjoint (p_vma s)" and "i < length (p_vma s)"
    and "vma_valid (p_vma s ! i) \<noteq> 0" and "vma_contains (p_vma s ! i) (stval s)"
    and "\<not> prot_denied h (scause s) (p_vma s ! i)"
    and "vma_file (p_vma s ! i) = Some ip"
    and "kfreelist s = pa # rest" and "pa \<noteq> 0"
    and "\<not> readi_error e" and "mappages_ret e = 0"
  shows "let v = p_vma s ! i;
             off = PGROUNDDOWN h (stval s) - vma_addr v + vma_offset v;
             n = min (unat (PGSIZE h)) (length ip - unat off);
             s' = snd (usertrap h e s)
         in fst (usertrap h e s) = (if p_killed s then Exit (- 1) else Return_to_user) \<and>
            kmem s' pa = take n (drop (unat off) ip) @ replicate (unat (PGSIZE h) - n) 0 \<and>
            pagetable s' = (PGROUNDDOWN h (stval s), pa, vma_flags h v) # pagetable s \<and>
            kfreelist s' = rest \<and>
            klog s' = klog s @
              [Kalloc_call pa, Begin_op, Ilock, Readi_call off (PGSIZE h) (int n), Iunlock,
               End_op, Mappages_call (PGROUNDDOWN h (stval s)) pa (vma_flags h v) 0]"
proof -
  let ?s1 = "s\<lparr>stvec := Kernelvec, tf_epc := sepc s\<rparr>"
  let ?v = "p_vma s ! i"
  let ?off = "PGROUNDDOWN h (stval s) - vma_addr ?v + vma_offset ?v"
  let ?n = "min (unat (PGSIZE h)) (length ip - unat ?off)"
  let ?bytes = "take (unat (PGSIZE h)) (drop (unat ?off) ip)"
  have len: "length ?bytes = ?n" by (simp add: min.commute)
  have bytes: "?bytes = take ?n (drop (unat ?off) ip)"
    by (cases "unat (PGSIZE h) \<le> length ip - unat ?off") (simp_all add: min_def)
  have scan: "vma_scan h e (p_vma s) (stval s) ?s1 = vma_fault h e ?v (stval s) ?s1"
    using assms(3-6) by (rule vma_scan_disjoint)
  define s2 where "s2 = ?s1\<lparr>kfreelist := rest, klog := klog s @ [Kalloc_call pa],
      kmem := (kmem s)(pa := replicate (unat (PGSIZE h)) 0)\<rparr>"
  define s5 where "s5 = s2\<lparr>kmem := (kmem s2)(pa := ?bytes @ replicate (unat (PGSIZE h) - ?n) 0),
      klog := klog s @ [Kalloc_call pa, Begin_op, Ilock, Readi_call ?off (PGSIZE h) (int ?n),
        Iunlock, End_op]\<rparr>"
  define s6 where "s6 = s5\<lparr>klog := klog s5 @
        [Mappages_call (PGROUNDDOWN h (stval s)) pa (vma_flags h ?v) 0],
      pagetable := (PGROUNDDOWN h (stval s), pa, vma_flags h ?v) # pagetable s\<rparr>"
  have rd: "readi e ip pa ?off (PGSIZE h) (call Ilock (call Begin_op s2))
      = (int ?n, s5\<lparr>klog := klog s @ [Kalloc_call pa, Begin_op, Ilock,
            Readi_call ?off (PGSIZE h) (int ?n)]\<rparr>)"
    using assms(11) len
    by (simp add: readi_def call_def s2_def s5_def Let_def)
  have mp: "map_fault_page h e ?v (stval s) pa s5 = s6"
    using assms(12) by (simp add: map_fault_page_def mappages_def call_def s5_def s6_def s2_def)
  have "vma_fault h e ?v (stval s) ?s1 = (True, s6)"
    using assms(7-10) rd mp
    by (simp add: vma_fault_def kalloc_def call_def s2_def s5_def Let_def)
  with scan have pf: "pagefault h e ?s1 = s6"
    by (simp add: pagefault_def)
  have u: "usertrap h e s = usertrap_end h e 0 s6"
    by (simp add: usertrap_pagefault [OF assms(1,2)] pf)
  have k6: "p_killed s6 = p_killed s" by (simp add: s6_def s5_def s2_def)
  have "fst (usertrap h e s) = (if p_killed s then Exit (- 1) else Return_to_user)"
    by (simp add: u usertrap_end_def killed_def k6)
  moreover have "kmem (snd (usertrap h e s)) pa = take ?n (drop (unat ?off) ip) @
      replicate (unat (PGSIZE h) - ?n) 0"
    by (simp add: u usertrap_end_def usertrapret_def intr_off_def Let_def s6_def s5_def
        bytes [symmetric])
  moreover have "pagetable (snd (usertrap h e s))
      = (PGROUNDDOWN h (stval s), pa, vma_flags h ?v) # pagetable s"
    by (simp add: u usertrap_end_def usertrapret_def intr_off_def Let_def s6_def)
  moreover have "kfreelist (snd (usertrap h e s)) = rest"
    by (simp add: u usertrap_end_def usertrapret_def intr_off_def Let_def s6_def s5_def s2_def)
  moreover have "klog (snd (usertrap h e s)) = klog s @
              [Kalloc_call pa, Begin_op, Ilock, Readi_call ?off (PGSIZE h) (int ?n), Iunlock,
               End_op, Mappages_call (PGROUNDDOWN h (stval s)) pa (vma_flags h ?v) 0]"
    by (simp add: u usertrap_end_def usertrapret_def intr_off_def Let_def s6_def s5_def)
  ultimately show ?thesis by (simp add: Let_def)
qed

theorem usertrap_fault_file_backed_witness:
  "fst (usertrap xv6_consts sample_env (user_state\<lparr>scause := 0xd, stval := 0x40000123\<rparr>))
     = Return_to_user \<and>
   kmem (snd (usertrap xv6_consts sample_env (user_state\<lparr>scause := 0xd, stval := 0x40000123\<rparr>)))
     0x87200000 = [0x68, 0x65, 0x6c, 0x6c, 0x6f] @ replicate 4091 0 \<and>
   pagetable (snd (usertrap xv6_consts sample_env
     (user_state\<lparr>scause := 0xd, stval := 0x40000123\<rparr>))) = [(0x40000000, 0x87200000, 0x16)] \<and>
   kmem (snd (usertrap xv6_consts sample_env (user_state\<lparr>scause := 0xf, stval := 0x40001008\<rparr>)))
     0x87200000 = replicate 4096 0 \<and>
   pagetable (snd (usertrap xv6_consts sample_env
     (user_state\<lparr>scause := 0xf, stval := 0x40001008\<rparr>))) = [(0x40001000, 0x87200000, 0x16)]"
proof -
  let ?a = "user_state\<lparr>scause := 0xd, stval := 0x40000123\<rparr>"
  let ?b = "user_state\<lparr>scause := 0xf, stval := 0x40001008\<rparr>"
  have e: "\<not> readi_error sample_env" "mappages_ret sample_env = 0"
    by (simp_all add: sample_env_def)
  have a: "sstatus ?a AND SSTATUS_SPP xv6_consts = 0"
    "scause ?a = 0xd \<or> scause ?a = 0xf \<or> scause ?a = 0xc"
    "vma_disjoint (p_vma ?a)" "1 < length (p_vma ?a)"
    "vma_valid (p_vma ?a ! 1) \<noteq> 0" "vma_contains (p_vma ?a ! 1) (stval ?a)"
    "\<not> prot_denied xv6_consts (scause ?a) (p_vma ?a ! 1)"
    "vma_file (p_vma ?a ! 1) = Some [0x68, 0x65, 0x6c, 0x6c, 0x6f]"
    "kfreelist ?a = 0x87200000 # [0x87201000]" "(0x87200000 :: addr) \<noteq> 0"
    using proc_vmas_disjoint
    by (simp_all add: user_state_def xv6_consts_def proc_vmas_def vma_contains_def
        prot_denied_def)
  have b: "sstatus ?b AND SSTATUS_SPP xv6_consts = 0"
    "scause ?b = 0xd \<or> scause ?b = 0xf \<or> scause ?b = 0xc"
    "vma_disjoint (p_vma ?b)" "1 < length (p_vma ?b)"
    "vma_valid (p_vma ?b ! 1) \<noteq> 0" "vma_contains (p_vma ?b ! 1) (stval ?b)"
    "\<not> prot_denied xv6_consts (scause ?b) (p_vma ?b ! 1)"
    "vma_file (p_vma ?b ! 1) = Some [0x68, 0x65, 0x6c, 0x6c, 0x6f]"
    "kfreelist ?b = 0x87200000 # [0x87201000]" "(0x87200000 :: addr) \<noteq> 0"
    using proc_vmas_disjoint
    by (simp_all add: user_state_def xv6_consts_def proc_vmas_def vma_contains_def
        prot_denied_def)
  have va: "p_vma ?a ! 1 = proc_vmas ! 1" "stval ?a = 0x40000123" "p_killed ?a = False"
    "pagetable ?a = []"
    and vb: "p_vma ?b ! 1 = proc_vmas ! 1" "stval ?b = 0x40001008" "p_killed ?b = False"
    "pagetable ?b = []"
    by (simp_all add: user_state_def)
  have v1: "vma_addr (proc_vmas ! 1) = 0x40000000" "vma_offset (proc_vmas ! 1) = 0"
    "vma_flags xv6_consts (proc_vmas ! 1) = 0x16"
    by (simp_all add: proc_vmas_def vma_flags_def xv6_consts_def)
  have pg: "PGROUNDDOWN xv6_consts 0x40000123 = 0x40000000"
    "PGROUNDDOWN xv6_consts 0x40001008 = 0x40001000" "unat (PGSIZE xv6_consts) = 4096"
    by (simp_all add: PGROUNDDOWN_def xv6_consts_def)
  note ra = usertrap_fault_file_backed [OF a e, unfolded Let_def va v1 pg]
  note rb = usertrap_fault_file_backed [OF b e, unfolded Let_def vb v1 pg]
  show ?thesis
    using ra rb by simp
qed

end
